theory Spec2Isabelle
  imports Main "HOL-Library.Char_ord" "HOL-Library.List_Lexorder"
begin

section \<open>The node store\<close>

text \<open>
  \<^verbatim>\<open>navigator.cpp\<close> builds a tree of heap-allocated \<^verbatim>\<open>Node\<close> objects. A directory owns
  its children through \<^verbatim>\<open>std::map<std::string, std::unique_ptr<Node>>\<close> and every node
  keeps a raw \<^verbatim>\<open>Node* parent\<close>. Both directions of pointer are kept in the model: a
  pointer is an address (an index into the store \<open>heap\<close>), \<^verbatim>\<open>nullptr\<close> is \<open>None\<close>.
  No operation of the program frees a node, so allocation appends to the store.
\<close>

datatype NodeType = FILE | DIRECTORY

type_synonym addr = nat

record Node =
  name :: string
  type :: NodeType
  parent :: "addr option"
  children :: "(string \<times> addr) list"

text \<open>
  \<^verbatim>\<open>std::map\<close> with \<^verbatim>\<open>std::string\<close> keys: the entries are held in ascending key order,
  where keys compare lexicographically byte by byte (the order of \<open>string\<close> given by
  \<open>Char_ord\<close> and \<open>List_Lexorder\<close>). \<open>map_count\<close> is \<^verbatim>\<open>count\<close>, \<open>map_of\<close> is the
  lookup done by \<^verbatim>\<open>operator[]\<close> on a present key, \<open>map_assign\<close> is \<^verbatim>\<open>m[k] = v\<close>.
\<close>

definition map_count :: "(string \<times> addr) list \<Rightarrow> string \<Rightarrow> nat" where
  "map_count m k = (case map_of m k of None \<Rightarrow> 0 | Some _ \<Rightarrow> 1)"

fun map_assign :: "string \<Rightarrow> addr \<Rightarrow> (string \<times> addr) list \<Rightarrow> (string \<times> addr) list" where
  "map_assign k v [] = [(k, v)]"
| "map_assign k v (e # m) =
     (if fst e = k then (k, v) # m
      else if k < fst e then (k, v) # e # m
      else e # map_assign k v m)"

record FileSystem =
  heap :: "Node list"
  root :: addr
  currentDirectory :: addr

text \<open>The outcome of a command: the error message it prints, if any.\<close>

datatype error = InvalidName | AlreadyExists | InvalidPath

section \<open>The operations of \<^verbatim>\<open>FileSystem\<close>\<close>

text \<open>The constructor: one directory named \<^verbatim>\<open>/\<close> without parent, which is also the cursor.\<close>

definition FileSystem_init :: FileSystem where
  "FileSystem_init =
     \<lparr>heap = [\<lparr>name = ''/'', type = DIRECTORY, parent = None, children = []\<rparr>],
      root = 0, currentDirectory = 0\<rparr>"

text \<open>
  \<^verbatim>\<open>splitPath\<close>: \<^verbatim>\<open>std::getline(ss, part, '/')\<close> reads up to the next separator or the end
  of the input, and the loop keeps the non-empty parts. \<open>splitPath_loop\<close> takes the
  unread input, the part being read and the parts pushed so far.
\<close>

fun splitPath_loop :: "string \<Rightarrow> string \<Rightarrow> string list \<Rightarrow> string list" where
  "splitPath_loop [] part parts = (if part \<noteq> [] then parts @ [part] else parts)"
| "splitPath_loop (c # cs) part parts =
     (if c = CHR ''/''
      then splitPath_loop cs [] (if part \<noteq> [] then parts @ [part] else parts)
      else splitPath_loop cs (part @ [c]) parts)"

definition splitPath :: "string \<Rightarrow> string list" where
  "splitPath path = splitPath_loop path [] []"

definition isValidName :: "string \<Rightarrow> bool" where
  "isValidName nm \<longleftrightarrow> CHR ''/'' \<notin> set nm"

definition nameExists :: "FileSystem \<Rightarrow> string \<Rightarrow> bool" where
  "nameExists fs nm \<longleftrightarrow> map_count (children (heap fs ! currentDirectory fs)) nm > 0"

text \<open>\<^verbatim>\<open>navigateToPath\<close>: the result \<open>None\<close> is the \<^verbatim>\<open>nullptr\<close> the source returns.\<close>

fun navigateToPath :: "FileSystem \<Rightarrow> string list \<Rightarrow> addr \<Rightarrow> addr option" where
  "navigateToPath fs [] targetNode = Some targetNode"
| "navigateToPath fs (part # parts) targetNode =
     (if part = ''..'' then
        (case parent (heap fs ! targetNode) of
           Some p \<Rightarrow> navigateToPath fs parts p
         | None \<Rightarrow> navigateToPath fs parts targetNode)
      else if part \<noteq> ''.'' then
        (if type (heap fs ! targetNode) \<noteq> DIRECTORY then None
         else if map_count (children (heap fs ! targetNode)) part > 0 then
           (case map_of (children (heap fs ! targetNode)) part of
              Some child \<Rightarrow>
                if type (heap fs ! child) = DIRECTORY then navigateToPath fs parts child
                else None
            | None \<Rightarrow> None)
         else None)
      else navigateToPath fs parts targetNode)"

text \<open>
  \<^verbatim>\<open>getPath\<close> recurses along the parent pointers until it meets the root. On a store whose
  parent pointers never reach the root it does not return; following a null parent is
  a crash. Both are the value \<open>None\<close>.
\<close>

partial_function (option) getPath :: "FileSystem \<Rightarrow> addr \<Rightarrow> string option" where
  "getPath fs node =
     (if node = root fs then Some ''/''
      else case parent (heap fs ! node) of
        None \<Rightarrow> None
      | Some p \<Rightarrow>
          if p = root fs then Some (''/'' @ name (heap fs ! node))
          else Option.bind (getPath fs p) (\<lambda>s. Some (s @ ''/'' @ name (heap fs ! node))))"

declare getPath.simps [code]

definition pwd :: "FileSystem \<Rightarrow> string option" where
  "pwd fs = getPath fs (currentDirectory fs)"

text \<open>
  \<^verbatim>\<open>ls\<close> iterates over the cursor's children in map order; \<open>ls_entries\<close> is what the
  iteration sees (key and type of the child), \<open>ls\<close> the lines it prints.
\<close>

definition ls_entries :: "FileSystem \<Rightarrow> (string \<times> NodeType) list" where
  "ls_entries fs =
     map (\<lambda>(k, c). (k, type (heap fs ! c))) (children (heap fs ! currentDirectory fs))"

definition ls :: "FileSystem \<Rightarrow> string list" where
  "ls fs = map (\<lambda>(k, t). if t = DIRECTORY then k @ ''/'' else k) (ls_entries fs)"

text \<open>
  \<^verbatim>\<open>mkdir\<close> and \<^verbatim>\<open>touch\<close> allocate the node (\<^verbatim>\<open>std::make_unique<Node>\<close>) and store it in the
  cursor's map under its name; \<open>new_child\<close> is that common else-branch.
\<close>

definition new_child :: "string \<Rightarrow> NodeType \<Rightarrow> FileSystem \<Rightarrow> FileSystem" where
  "new_child nm ty fs =
     (let cur = currentDirectory fs;
          a = length (heap fs);
          h = heap fs @ [\<lparr>name = nm, type = ty, parent = Some cur, children = []\<rparr>]
      in fs\<lparr>heap := h[cur := (h ! cur)\<lparr>children := map_assign nm a (children (h ! cur))\<rparr>]\<rparr>)"

definition mkdir :: "string \<Rightarrow> FileSystem \<Rightarrow> error option \<times> FileSystem" where
  "mkdir dirName fs =
     (if \<not> isValidName dirName then (Some InvalidName, fs)
      else if nameExists fs dirName then (Some AlreadyExists, fs)
      else (None, new_child dirName DIRECTORY fs))"

definition touch :: "string \<Rightarrow> FileSystem \<Rightarrow> error option \<times> FileSystem" where
  "touch fileName fs =
     (if \<not> isValidName fileName then (Some InvalidName, fs)
      else if nameExists fs fileName then (Some AlreadyExists, fs)
      else (None, new_child fileName FILE fs))"

text \<open>
  \<^verbatim>\<open>cd\<close>. \<^verbatim>\<open>path[0]\<close> of an empty \<^verbatim>\<open>std::string\<close> is the terminating NUL, which is not the
  separator.
\<close>

definition cd_start :: "string \<Rightarrow> FileSystem \<Rightarrow> addr" where
  "cd_start path fs =
     (case path of
        [] \<Rightarrow> currentDirectory fs
      | c # _ \<Rightarrow> if c = CHR ''/'' then root fs else currentDirectory fs)"

definition cd :: "string \<Rightarrow> FileSystem \<Rightarrow> error option \<times> FileSystem" where
  "cd path fs =
     (if path = ''/'' then (None, fs\<lparr>currentDirectory := root fs\<rparr>)
      else
        case navigateToPath fs (splitPath path) (cd_start path fs) of
          Some targetNode \<Rightarrow> (None, fs\<lparr>currentDirectory := targetNode\<rparr>)
        | None \<Rightarrow> (Some InvalidPath, fs))"

text \<open>
  \<^verbatim>\<open>find_helper\<close> recurses into the children of a directory, in map order, and appends
  the path of every node whose name is the target to \<^verbatim>\<open>results\<close>. The recursion follows
  the child pointers of the store, so the model bounds its depth by a first argument:
  \<open>None\<close> says that the bound was reached or that \<^verbatim>\<open>getPath\<close> did not return.
  \<open>find_children\<close> is the \<^verbatim>\<open>for\<close> loop over the iterator.
\<close>

fun find_helper :: "nat \<Rightarrow> FileSystem \<Rightarrow> addr \<Rightarrow> string \<Rightarrow> string list \<Rightarrow> string list option"
  and find_children ::
    "nat \<Rightarrow> FileSystem \<Rightarrow> (string \<times> addr) list \<Rightarrow> string \<Rightarrow> string list \<Rightarrow> string list option"
where
  "find_helper 0 fs startNode targetName results = None"
| "find_helper (Suc d) fs startNode targetName results =
     (case (if name (heap fs ! startNode) = targetName
            then map_option (\<lambda>p. results @ [p]) (getPath fs startNode)
            else Some results) of
        None \<Rightarrow> None
      | Some results1 \<Rightarrow>
          if type (heap fs ! startNode) = DIRECTORY
          then find_children d fs (children (heap fs ! startNode)) targetName results1
          else Some results1)"
| "find_children d fs [] targetName results = Some results"
| "find_children d fs (e # es) targetName results =
     (case find_helper d fs (snd e) targetName results of
        None \<Rightarrow> None
      | Some results1 \<Rightarrow> find_children d fs es targetName results1)"

definition find_cmd :: "nat \<Rightarrow> string \<Rightarrow> FileSystem \<Rightarrow> string list option" where
  "find_cmd d nm fs = find_helper d fs (root fs) nm []"

section \<open>Reachable states\<close>

text \<open>
  The public operations of the class, and the state after a sequence of them on a fresh
  \<^verbatim>\<open>FileSystem\<close>. \<^verbatim>\<open>pwd\<close>, \<^verbatim>\<open>ls\<close> and \<^verbatim>\<open>find\<close> only print.
\<close>

datatype command = Pwd | Ls | Mkdir string | Touch string | Cd string | Find string

fun exec :: "command \<Rightarrow> FileSystem \<Rightarrow> FileSystem" where
  "exec Pwd fs = fs"
| "exec Ls fs = fs"
| "exec (Mkdir nm) fs = snd (mkdir nm fs)"
| "exec (Touch nm) fs = snd (touch nm fs)"
| "exec (Cd path) fs = snd (cd path fs)"
| "exec (Find nm) fs = fs"

definition run :: "command list \<Rightarrow> FileSystem" where
  "run cs = fold exec cs FileSystem_init"

section \<open>Well-formed stores\<close>

text \<open>
  \<open>walk h a ks\<close> goes down from node \<open>a\<close> along the child keys \<open>ks\<close>. The predicates
  below say that the store is a tree: the root is a parentless directory named \<^verbatim>\<open>/\<close>;
  a child is allocated after its directory, points back to it and is filed under its own
  name; every other node is filed in its parent, which is a directory; the maps are
  ascending; a file has no children. \<open>fs_inv\<close> adds that the cursor is a directory that is
  reached from the root along keys other than the empty one, \<^verbatim>\<open>.\<close> and \<^verbatim>\<open>..\<close>.
\<close>

fun walk :: "Node list \<Rightarrow> addr \<Rightarrow> string list \<Rightarrow> addr option" where
  "walk h a [] = Some a"
| "walk h a (k # ks) =
     (case map_of (children (h ! a)) k of None \<Rightarrow> None | Some c \<Rightarrow> walk h c ks)"

definition root_ok :: "Node list \<Rightarrow> bool" where
  "root_ok h \<longleftrightarrow>
     h \<noteq> [] \<and> name (h ! 0) = ''/'' \<and> type (h ! 0) = DIRECTORY \<and> parent (h ! 0) = None"

definition child_ok :: "Node list \<Rightarrow> bool" where
  "child_ok h \<longleftrightarrow>
     (\<forall>a k c. a < length h \<longrightarrow> map_of (children (h ! a)) k = Some c \<longrightarrow>
        a < c \<and> c < length h \<and> parent (h ! c) = Some a \<and> name (h ! c) = k)"

definition parent_ok :: "Node list \<Rightarrow> bool" where
  "parent_ok h \<longleftrightarrow>
     (\<forall>a. 0 < a \<longrightarrow> a < length h \<longrightarrow>
        CHR ''/'' \<notin> set (name (h ! a)) \<and>
        (\<exists>p. p < a \<and> parent (h ! a) = Some p \<and> type (h ! p) = DIRECTORY \<and>
           map_of (children (h ! p)) (name (h ! a)) = Some a))"

definition sorted_ok :: "Node list \<Rightarrow> bool" where
  "sorted_ok h \<longleftrightarrow> (\<forall>a. a < length h \<longrightarrow> sorted_wrt (<) (map fst (children (h ! a))))"

definition file_ok :: "Node list \<Rightarrow> bool" where
  "file_ok h \<longleftrightarrow> (\<forall>a. a < length h \<longrightarrow> type (h ! a) = FILE \<longrightarrow> children (h ! a) = [])"

definition heap_ok :: "Node list \<Rightarrow> bool" where
  "heap_ok h \<longleftrightarrow> root_ok h \<and> child_ok h \<and> parent_ok h \<and> sorted_ok h \<and> file_ok h"

definition plain :: "string \<Rightarrow> bool" where
  "plain k \<longleftrightarrow> k \<noteq> [] \<and> k \<noteq> ''.'' \<and> k \<noteq> ''..''"

definition fs_inv :: "FileSystem \<Rightarrow> bool" where
  "fs_inv fs \<longleftrightarrow>
     root fs = 0 \<and> heap_ok (heap fs) \<and>
     currentDirectory fs < length (heap fs) \<and>
     type (heap fs ! currentDirectory fs) = DIRECTORY \<and>
     (\<exists>ks. walk (heap fs) 0 ks = Some (currentDirectory fs) \<and> (\<forall>k \<in> set ks. plain k))"

text \<open>
  The cursor refers to a live directory that is reachable from the root: its address is
  allocated, the node there is a directory, and some sequence of child keys leads from
  the root to it.
\<close>

definition cursor_ok :: "FileSystem \<Rightarrow> bool" where
  "cursor_ok fs \<longleftrightarrow>
     currentDirectory fs < length (heap fs) \<and>
     type (heap fs ! currentDirectory fs) = DIRECTORY \<and>
     (\<exists>ks. walk (heap fs) (root fs) ks = Some (currentDirectory fs))"

text \<open>Lexicographic comparison of two names by the numeric values of their bytes.\<close>

fun bytes_less :: "string \<Rightarrow> string \<Rightarrow> bool" where
  "bytes_less [] [] \<longleftrightarrow> False"
| "bytes_less [] (y # ys) \<longleftrightarrow> True"
| "bytes_less (x # xs) [] \<longleftrightarrow> False"
| "bytes_less (x # xs) (y # ys) \<longleftrightarrow>
     (of_char x :: nat) < of_char y \<or> (of_char x :: nat) = of_char y \<and> bytes_less xs ys"

text \<open>
  The absolute path made of a list of names, and the names of the nodes met when going
  down from \<open>a\<close> along the keys \<open>ks\<close>.
\<close>

definition absolute_path :: "string list \<Rightarrow> string" where
  "absolute_path names = (if names = [] then ''/'' else concat (map (\<lambda>n. CHR ''/'' # n) names))"

fun names_along :: "Node list \<Rightarrow> addr \<Rightarrow> string list \<Rightarrow> string list option" where
  "names_along h a [] = Some []"
| "names_along h a (k # ks) =
     (case map_of (children (h ! a)) k of
        None \<Rightarrow> None
      | Some c \<Rightarrow> map_option ((#) (name (h ! c))) (names_along h c ks))"

text \<open>
  The depth-first pre-order listing of the nodes below \<open>a\<close>: the node itself, then, for a
  directory, the listings of its children in map order. As in \<open>find_helper\<close> the first
  argument bounds the depth. \<open>is_path fs a p\<close> says that \<open>p\<close> is the absolute path of
  node \<open>a\<close>: the separator followed by each name on the way from the root down to \<open>a\<close>.
\<close>

fun preorder :: "nat \<Rightarrow> Node list \<Rightarrow> addr \<Rightarrow> addr list option"
  and preorder_children :: "nat \<Rightarrow> Node list \<Rightarrow> (string \<times> addr) list \<Rightarrow> addr list option"
where
  "preorder 0 h a = None"
| "preorder (Suc d) h a =
     (if type (h ! a) = DIRECTORY
      then map_option ((#) a) (preorder_children d h (children (h ! a)))
      else Some [a])"
| "preorder_children d h [] = Some []"
| "preorder_children d h (e # es) =
     (case preorder d h (snd e) of
        None \<Rightarrow> None
      | Some xs \<Rightarrow> map_option ((@) xs) (preorder_children d h es))"

definition is_path :: "FileSystem \<Rightarrow> addr \<Rightarrow> string \<Rightarrow> bool" where
  "is_path fs a p \<longleftrightarrow>
     (\<exists>ks ns. walk (heap fs) (root fs) ks = Some a \<and>
        names_along (heap fs) (root fs) ks = Some ns \<and> p = absolute_path ns)"

section \<open>Properties of the map operations\<close>

lemma map_of_map_assign: "map_of (map_assign k v m) = (map_of m)(k \<mapsto> v)"
  by (induction m) (auto simp: fun_eq_iff)

lemma set_fst_map_assign: "fst ` set (map_assign k v m) = insert k (fst ` set m)"
  by (induction m) auto

lemma sorted_map_assign:
  "sorted_wrt (<) (map fst m) \<Longrightarrow> sorted_wrt (<) (map fst (map_assign k v m))"
proof (induction m)
  case Nil
  then show ?case by simp
next
  case (Cons e m)
  have keys: "fst ` set (map_assign k v m) = insert k (fst ` set m)"
    by (rule set_fst_map_assign)
  show ?case
  proof (cases "fst e = k")
    case True
    with Cons.prems show ?thesis by simp
  next
    case False
    show ?thesis
    proof (cases "k < fst e")
      case True
      with Cons.prems False show ?thesis by (auto intro: less_trans)
    next
      case ge: False
      with False have "fst e < k" by simp
      with Cons ge False keys show ?thesis by auto
    qed
  qed
qed

lemma map_count_pos: "map_count m k > 0 \<longleftrightarrow> map_of m k \<noteq> None"
  by (simp add: map_count_def split: option.splits)

section \<open>The invariant holds in every reachable state\<close>

lemma inv_init: "fs_inv FileSystem_init"
proof -
  have "walk (heap FileSystem_init) 0 [] = Some (currentDirectory FileSystem_init)"
    by (simp add: FileSystem_init_def)
  moreover have "\<forall>k \<in> set ([] :: string list). plain k" by simp
  moreover have "heap_ok (heap FileSystem_init)"
    by (simp add: FileSystem_init_def heap_ok_def root_ok_def child_ok_def parent_ok_def
        sorted_ok_def file_ok_def)
  ultimately show ?thesis
    unfolding fs_inv_def by (intro conjI exI[of _ "[]"]) (simp_all add: FileSystem_init_def)
qed

subsection \<open>Walking down\<close>

lemma walk_append:
  "walk h a (ks @ ks') = (case walk h a ks of None \<Rightarrow> None | Some b \<Rightarrow> walk h b ks')"
  by (induction ks arbitrary: a) (auto split: option.splits)

lemma walk_snoc:
  "walk h a (ks @ [k]) = Some b \<longleftrightarrow>
     (\<exists>q. walk h a ks = Some q \<and> map_of (children (h ! q)) k = Some b)"
  by (auto simp: walk_append split: option.splits)

lemma walk_range:
  assumes "child_ok h"
  shows "a < length h \<Longrightarrow> walk h a ks = Some b \<Longrightarrow> b < length h \<and> a \<le> b \<and> (ks \<noteq> [] \<longrightarrow> a < b)"
proof (induction ks arbitrary: a)
  case Nil
  then show ?case by simp
next
  case (Cons k ks)
  from Cons.prems obtain c where c: "map_of (children (h ! a)) k = Some c" "walk h c ks = Some b"
    by (auto split: option.splits)
  from assms Cons.prems(1) c(1) have "a < c" "c < length h"
    unfolding child_ok_def by blast+
  with Cons.IH[OF \<open>c < length h\<close> c(2)] show ?case by auto
qed

lemma walk_to_root:
  assumes "child_ok h" "0 < length h" "walk h 0 ks = Some 0"
  shows "ks = []"
  using walk_range[OF assms(1) assms(2) assms(3)] by auto


subsection \<open>Creating a child\<close>

lemma length_new_child: "length (heap (new_child nm ty fs)) = Suc (length (heap fs))"
  by (simp add: new_child_def Let_def)

lemma cursor_new_child:
  "currentDirectory (new_child nm ty fs) = currentDirectory fs" "root (new_child nm ty fs) = root fs"
  by (simp_all add: new_child_def Let_def)

lemma nth_new_child:
  assumes "currentDirectory fs < length (heap fs)" "a \<le> length (heap fs)"
  shows "heap (new_child nm ty fs) ! a =
     (if a = currentDirectory fs
      then (heap fs ! a)\<lparr>children := map_assign nm (length (heap fs)) (children (heap fs ! a))\<rparr>
      else if a = length (heap fs)
      then \<lparr>name = nm, type = ty, parent = Some (currentDirectory fs), children = []\<rparr>
      else heap fs ! a)"
  using assms by (auto simp: new_child_def Let_def nth_list_update nth_append)

lemma fields_new_child:
  assumes "currentDirectory fs < length (heap fs)" "a \<le> length (heap fs)"
  shows "name (heap (new_child nm ty fs) ! a) = (if a = length (heap fs) then nm else name (heap fs ! a))"
    and "type (heap (new_child nm ty fs) ! a) = (if a = length (heap fs) then ty else type (heap fs ! a))"
    and "parent (heap (new_child nm ty fs) ! a) =
           (if a = length (heap fs) then Some (currentDirectory fs) else parent (heap fs ! a))"
    and "children (heap (new_child nm ty fs) ! a) =
           (if a = currentDirectory fs
            then map_assign nm (length (heap fs)) (children (heap fs ! a))
            else if a = length (heap fs) then [] else children (heap fs ! a))"
  using assms by (auto simp: nth_new_child)

lemma lookup_new_child:
  assumes "currentDirectory fs < length (heap fs)" "a \<le> length (heap fs)"
  shows "map_of (children (heap (new_child nm ty fs) ! a)) k =
           (if a = currentDirectory fs \<and> k = nm then Some (length (heap fs))
            else if a = length (heap fs) then None
            else map_of (children (heap fs ! a)) k)"
  using assms by (auto simp: fields_new_child map_of_map_assign)

lemma root_ok_new_child:
  assumes "root_ok (heap fs)" "currentDirectory fs < length (heap fs)"
  shows "root_ok (heap (new_child nm ty fs))"
proof -
  from assms(2) have z: "0 \<noteq> length (heap fs)" "(0::nat) \<le> length (heap fs)" by auto
  have "heap (new_child nm ty fs) \<noteq> []"
    using length_new_child[of nm ty fs] by auto
  moreover have "name (heap (new_child nm ty fs) ! 0) = name (heap fs ! 0)"
    "type (heap (new_child nm ty fs) ! 0) = type (heap fs ! 0)"
    "parent (heap (new_child nm ty fs) ! 0) = parent (heap fs ! 0)"
    using z by (simp_all add: fields_new_child[OF assms(2)])
  ultimately show ?thesis
    using assms(1) unfolding root_ok_def by simp
qed

lemma child_ok_new_child:
  assumes ok: "child_ok (heap fs)" and cur: "currentDirectory fs < length (heap fs)"
  shows "child_ok (heap (new_child nm ty fs))"
  unfolding child_ok_def
proof (intro allI impI)
  fix a k c
  let ?h = "heap fs" and ?h' = "heap (new_child nm ty fs)"
  assume a: "a < length ?h'" and look: "map_of (children (?h' ! a)) k = Some c"
  from a have a': "a \<le> length ?h" by (simp add: length_new_child)
  show "a < c \<and> c < length ?h' \<and> parent (?h' ! c) = Some a \<and> name (?h' ! c) = k"
  proof (cases "a = currentDirectory fs \<and> k = nm")
    case True
    with look cur a' have "c = length ?h" by (simp add: lookup_new_child)
    with True cur show ?thesis by (simp add: fields_new_child length_new_child)
  next
    case False
    with look cur a' have old: "a \<noteq> length ?h" "map_of (children (?h ! a)) k = Some c"
      by (auto simp: lookup_new_child split: if_splits)
    with a' have "a < length ?h" by simp
    with ok old(2) have "a < c" "c < length ?h" "parent (?h ! c) = Some a" "name (?h ! c) = k"
      unfolding child_ok_def by blast+
    with cur show ?thesis by (simp add: fields_new_child length_new_child)
  qed
qed

lemma parent_ok_new_child:
  assumes ok: "parent_ok (heap fs)" and cur: "currentDirectory fs < length (heap fs)"
    and dir: "type (heap fs ! currentDirectory fs) = DIRECTORY"
    and fresh: "map_of (children (heap fs ! currentDirectory fs)) nm = None"
    and valid: "CHR ''/'' \<notin> set nm"
  shows "parent_ok (heap (new_child nm ty fs))"
  unfolding parent_ok_def
proof (intro allI impI)
  fix a
  let ?h = "heap fs" and ?h' = "heap (new_child nm ty fs)"
  assume pos: "0 < a" and a: "a < length ?h'"
  from a have a': "a \<le> length ?h" by (simp add: length_new_child)
  show "CHR ''/'' \<notin> set (name (?h' ! a)) \<and>
        (\<exists>p. p < a \<and> parent (?h' ! a) = Some p \<and> type (?h' ! p) = DIRECTORY \<and>
           map_of (children (?h' ! p)) (name (?h' ! a)) = Some a)"
  proof (cases "a = length ?h")
    case True
    have nm: "name (?h' ! a) = nm"
      using True cur by (simp add: fields_new_child)
    have "currentDirectory fs < a" "parent (?h' ! a) = Some (currentDirectory fs)"
      "type (?h' ! currentDirectory fs) = DIRECTORY"
      using True cur dir by (simp_all add: fields_new_child)
    moreover have "map_of (children (?h' ! currentDirectory fs)) nm = Some a"
      using True cur by (simp add: lookup_new_child)
    ultimately show ?thesis using nm valid by auto
  next
    case False
    with a' have lt: "a < length ?h" by simp
    with ok pos obtain p where p: "CHR ''/'' \<notin> set (name (?h ! a))" "p < a"
      "parent (?h ! a) = Some p" "type (?h ! p) = DIRECTORY"
      "map_of (children (?h ! p)) (name (?h ! a)) = Some a"
      unfolding parent_ok_def by blast
    from p(2) lt have p': "p \<le> length ?h" "p \<noteq> length ?h" by simp_all
    have "name (?h ! a) \<noteq> nm" if "p = currentDirectory fs"
      using that p(5) fresh by auto
    then have "map_of (children (?h' ! p)) (name (?h ! a)) = Some a"
      using p(5) p' cur by (auto simp: lookup_new_child)
    with p p' cur False a' show ?thesis
      by (simp add: fields_new_child)
  qed
qed

lemma sorted_ok_new_child:
  assumes ok: "sorted_ok (heap fs)" and cur: "currentDirectory fs < length (heap fs)"
  shows "sorted_ok (heap (new_child nm ty fs))"
  unfolding sorted_ok_def
proof (intro allI impI)
  fix a
  assume "a < length (heap (new_child nm ty fs))"
  then have a': "a \<le> length (heap fs)" by (simp add: length_new_child)
  from ok cur have "sorted_wrt (<) (map fst (children (heap fs ! currentDirectory fs)))"
    unfolding sorted_ok_def by blast
  moreover have "sorted_wrt (<) (map fst (children (heap fs ! a)))" if "a \<noteq> length (heap fs)"
    using ok a' that unfolding sorted_ok_def by simp
  ultimately show "sorted_wrt (<) (map fst (children (heap (new_child nm ty fs) ! a)))"
    using cur a' by (simp add: fields_new_child sorted_map_assign)
qed

lemma file_ok_new_child:
  assumes ok: "file_ok (heap fs)" and cur: "currentDirectory fs < length (heap fs)"
    and dir: "type (heap fs ! currentDirectory fs) = DIRECTORY"
  shows "file_ok (heap (new_child nm ty fs))"
  unfolding file_ok_def
proof (intro allI impI)
  fix a
  assume "a < length (heap (new_child nm ty fs))"
    and isf: "type (heap (new_child nm ty fs) ! a) = FILE"
  then have a': "a \<le> length (heap fs)" by (simp add: length_new_child)
  show "children (heap (new_child nm ty fs) ! a) = []"
  proof (cases "a = length (heap fs)")
    case True
    with cur show ?thesis by (simp add: fields_new_child)
  next
    case False
    with isf cur a' have f: "type (heap fs ! a) = FILE" by (simp add: fields_new_child)
    with dir have "a \<noteq> currentDirectory fs" by auto
    moreover from ok f False a' have "children (heap fs ! a) = []"
      unfolding file_ok_def by simp
    ultimately show ?thesis using cur a' False by (simp add: fields_new_child)
  qed
qed

lemma walk_new_child:
  assumes ok: "child_ok (heap fs)" and cur: "currentDirectory fs < length (heap fs)"
    and fresh: "map_of (children (heap fs ! currentDirectory fs)) nm = None"
  shows "a < length (heap fs) \<Longrightarrow> walk (heap fs) a ks = Some b \<Longrightarrow>
         walk (heap (new_child nm ty fs)) a ks = Some b"
proof (induction ks arbitrary: a)
  case Nil
  then show ?case by simp
next
  case (Cons k ks)
  from Cons.prems obtain c where c: "map_of (children (heap fs ! a)) k = Some c"
    "walk (heap fs) c ks = Some b"
    by (auto split: option.splits)
  from ok Cons.prems(1) c(1) have "c < length (heap fs)"
    unfolding child_ok_def by blast
  then have "walk (heap (new_child nm ty fs)) c ks = Some b"
    using c(2) by (rule Cons.IH)
  moreover have "map_of (children (heap (new_child nm ty fs) ! a)) k = Some c"
    using c(1) fresh cur Cons.prems(1) by (auto simp: lookup_new_child)
  ultimately show ?case by simp
qed

lemma inv_new_child:
  assumes "fs_inv fs" "CHR ''/'' \<notin> set nm"
    "map_of (children (heap fs ! currentDirectory fs)) nm = None"
  shows "fs_inv (new_child nm ty fs)"
proof -
  let ?h = "heap fs"
  from assms(1) have r: "root fs = 0" and h: "heap_ok ?h"
    and cur: "currentDirectory fs < length ?h"
    and dir: "type (?h ! currentDirectory fs) = DIRECTORY"
    unfolding fs_inv_def by simp_all
  from assms(1) obtain ks where ks: "walk ?h 0 ks = Some (currentDirectory fs)"
    "\<forall>k \<in> set ks. plain k"
    unfolding fs_inv_def by blast
  from h have parts: "root_ok ?h" "child_ok ?h" "parent_ok ?h" "sorted_ok ?h" "file_ok ?h"
    unfolding heap_ok_def by simp_all
  have "heap_ok (heap (new_child nm ty fs))"
    unfolding heap_ok_def
    using root_ok_new_child[OF parts(1) cur] child_ok_new_child[OF parts(2) cur]
      parent_ok_new_child[OF parts(3) cur dir assms(3) assms(2)]
      sorted_ok_new_child[OF parts(4) cur] file_ok_new_child[OF parts(5) cur dir]
    by simp
  moreover from cur have "0 < length ?h" by auto
  then have "walk (heap (new_child nm ty fs)) 0 ks = Some (currentDirectory fs)"
    using ks(1) by (rule walk_new_child[OF parts(2) cur assms(3)])
  moreover have "type (heap (new_child nm ty fs) ! currentDirectory fs) = DIRECTORY"
    using cur dir by (simp add: fields_new_child)
  ultimately show ?thesis
    unfolding fs_inv_def using r cur ks(2)
    by (auto simp: cursor_new_child length_new_child)
qed


lemma inv_mkdir: "fs_inv fs \<Longrightarrow> fs_inv (snd (mkdir nm fs))"
  by (simp add: mkdir_def isValidName_def nameExists_def map_count_pos inv_new_child)

lemma inv_touch: "fs_inv fs \<Longrightarrow> fs_inv (snd (touch nm fs))"
  by (simp add: touch_def isValidName_def nameExists_def map_count_pos inv_new_child)

subsection \<open>Changing the directory\<close>

lemma splitPath_loop_nonempty:
  "\<forall>p \<in> set parts. p \<noteq> [] \<Longrightarrow> \<forall>p \<in> set (splitPath_loop s part parts). p \<noteq> []"
proof (induction s arbitrary: part parts)
  case Nil
  then show ?case by simp
next
  case (Cons c s)
  show ?case
  proof (cases "c = CHR ''/''")
    case True
    have "\<forall>p \<in> set (if part \<noteq> [] then parts @ [part] else parts). p \<noteq> []"
      using Cons.prems by simp
    then have "\<forall>p \<in> set (splitPath_loop s [] (if part \<noteq> [] then parts @ [part] else parts)). p \<noteq> []"
      by (rule Cons.IH)
    then show ?thesis unfolding True by (simp only: splitPath_loop.simps refl if_True)
  next
    case False
    have "\<forall>p \<in> set (splitPath_loop s (part @ [c]) parts). p \<noteq> []"
      using Cons.prems by (rule Cons.IH)
    then show ?thesis using False by (simp only: splitPath_loop.simps if_False)
  qed
qed

lemma splitPath_nonempty: "\<forall>p \<in> set (splitPath path). p \<noteq> []"
  unfolding splitPath_def by (rule splitPath_loop_nonempty) simp

lemma parent_of_walk:
  assumes h: "heap_ok h" and w: "walk h 0 ks = Some t" and p: "parent (h ! t) = Some p"
  shows "p < t \<and> type (h ! p) = DIRECTORY \<and> ks \<noteq> [] \<and> walk h 0 (butlast ks) = Some p"
proof -
  from h have ok: "root_ok h" "child_ok h" "parent_ok h"
    unfolding heap_ok_def by simp_all
  from ok(1) have len: "0 < length h" and rp: "parent (h ! 0) = None"
    unfolding root_ok_def by simp_all
  have t0: "t \<noteq> 0"
  proof
    assume "t = 0"
    with rp p show False by simp
  qed
  with w have ne: "ks \<noteq> []" by auto
  then have "walk h 0 (butlast ks @ [last ks]) = Some t" using w by simp
  then obtain q where q: "walk h 0 (butlast ks) = Some q"
    "map_of (children (h ! q)) (last ks) = Some t"
    unfolding walk_snoc by blast
  from walk_range[OF ok(2) len q(1)] have "q < length h" by simp
  with ok(2) q(2) have "q < t" "parent (h ! t) = Some q" "t < length h"
    unfolding child_ok_def by blast+
  with p have qp: "q = p" by simp
  from ok(3) t0 \<open>t < length h\<close> obtain p' where
    "parent (h ! t) = Some p'" "type (h ! p') = DIRECTORY"
    unfolding parent_ok_def by blast
  with p have "type (h ! p) = DIRECTORY" by simp
  with qp q(1) \<open>q < t\<close> ne show ?thesis by simp
qed

lemma navigate_inv:
  assumes h: "heap_ok (heap fs)"
  shows "t < length (heap fs) \<Longrightarrow> type (heap fs ! t) = DIRECTORY \<Longrightarrow>
         walk (heap fs) 0 ks = Some t \<Longrightarrow> \<forall>k \<in> set ks. plain k \<Longrightarrow>
         \<forall>p \<in> set parts. p \<noteq> [] \<Longrightarrow> navigateToPath fs parts t = Some t' \<Longrightarrow>
         t' < length (heap fs) \<and> type (heap fs ! t') = DIRECTORY \<and>
         (\<exists>ks'. walk (heap fs) 0 ks' = Some t' \<and> (\<forall>k \<in> set ks'. plain k))"
proof (induction parts arbitrary: t ks)
  case Nil
  then show ?case by auto
next
  case (Cons part parts)
  from Cons.prems(5) have rest: "\<forall>p \<in> set parts. p \<noteq> []" and pne: "part \<noteq> []" by simp_all
  from h have cok: "child_ok (heap fs)" unfolding heap_ok_def by simp
  show ?case
  proof (cases "part = ''..''")
    case True
    show ?thesis
    proof (cases "parent (heap fs ! t)")
      case None
      with True Cons.prems(6) have "navigateToPath fs parts t = Some t'" by simp
      from Cons.IH[OF Cons.prems(1-4) rest this] show ?thesis .
    next
      case (Some p)
      with True Cons.prems(6) have nav: "navigateToPath fs parts p = Some t'" by simp
      from parent_of_walk[OF h Cons.prems(3) Some]
      have p: "p < t" "type (heap fs ! p) = DIRECTORY" "walk (heap fs) 0 (butlast ks) = Some p"
        by simp_all
      from p(1) Cons.prems(1) have "p < length (heap fs)" by simp
      moreover from Cons.prems(4) have "\<forall>k \<in> set (butlast ks). plain k"
        by (auto dest: in_set_butlastD)
      ultimately show ?thesis using Cons.IH[OF _ p(2) p(3) _ rest nav] by blast
    qed
  next
    case notup: False
    show ?thesis
    proof (cases "part = ''.''")
      case True
      with Cons.prems(6) have "navigateToPath fs parts t = Some t'" by simp
      from Cons.IH[OF Cons.prems(1-4) rest this] show ?thesis .
    next
      case False
      with notup Cons.prems(6) obtain c where c: "map_of (children (heap fs ! t)) part = Some c"
        "type (heap fs ! c) = DIRECTORY" "navigateToPath fs parts c = Some t'"
        by (auto split: if_splits option.splits)
      from cok Cons.prems(1) c(1) have "c < length (heap fs)"
        unfolding child_ok_def by blast
      moreover have "walk (heap fs) 0 (ks @ [part]) = Some c"
        unfolding walk_snoc using Cons.prems(3) c(1) by blast
      moreover have "\<forall>k \<in> set (ks @ [part]). plain k"
        using Cons.prems(4) pne notup False by (simp add: plain_def)
      ultimately show ?thesis using Cons.IH[OF _ c(2) _ _ rest c(3)] by blast
    qed
  qed
qed

lemma inv_cd:
  assumes "fs_inv fs"
  shows "fs_inv (snd (cd path fs))"
proof -
  let ?h = "heap fs"
  from assms have r: "root fs = 0" and h: "heap_ok ?h"
    and cur: "currentDirectory fs < length ?h"
    and dir: "type (?h ! currentDirectory fs) = DIRECTORY"
    unfolding fs_inv_def by simp_all
  from assms obtain ks where ks: "walk ?h 0 ks = Some (currentDirectory fs)"
    "\<forall>k \<in> set ks. plain k"
    unfolding fs_inv_def by blast
  from h have "root_ok ?h" unfolding heap_ok_def by simp
  then have len: "0 < length ?h" and rdir: "type (?h ! 0) = DIRECTORY"
    unfolding root_ok_def by simp_all
  have at_root: "fs_inv (fs\<lparr>currentDirectory := 0\<rparr>)"
    unfolding fs_inv_def using r h len rdir by (auto intro: exI[of _ "[]"])
  show ?thesis
  proof (cases "path = ''/''")
    case True
    with at_root r show ?thesis by (simp add: cd_def)
  next
    case False
    define start where "start = cd_start path fs"
    have start: "start = 0 \<or> start = currentDirectory fs"
      unfolding start_def cd_start_def using r by (auto split: list.splits)
    show ?thesis
    proof (cases "navigateToPath fs (splitPath path) start")
      case None
      with False assms show ?thesis by (simp add: cd_def start_def)
    next
      case (Some t')
      have "t' < length ?h \<and> type (?h ! t') = DIRECTORY \<and>
            (\<exists>ks'. walk ?h 0 ks' = Some t' \<and> (\<forall>k \<in> set ks'. plain k))"
        using start
      proof
        assume "start = 0"
        with Some have "navigateToPath fs (splitPath path) 0 = Some t'" by simp
        from navigate_inv[OF h len rdir _ _ splitPath_nonempty this, of "[]"]
        show ?thesis by simp
      next
        assume "start = currentDirectory fs"
        with Some have "navigateToPath fs (splitPath path) (currentDirectory fs) = Some t'"
          by simp
        from navigate_inv[OF h cur dir ks splitPath_nonempty this]
        show ?thesis .
      qed
      then have "fs_inv (fs\<lparr>currentDirectory := t'\<rparr>)"
        unfolding fs_inv_def using r h by simp
      with False Some show ?thesis by (simp add: cd_def start_def)
    qed
  qed
qed

lemma inv_exec: "fs_inv fs \<Longrightarrow> fs_inv (exec c fs)"
  by (cases c) (simp_all add: inv_mkdir inv_touch inv_cd)

lemma inv_run: "fs_inv (run cs)"
  unfolding run_def by (induction cs rule: rev_induct) (simp_all add: inv_init inv_exec)

lemma bytes_less_iff: "bytes_less xs ys \<longleftrightarrow> xs < ys"
  by (induction xs ys rule: bytes_less.induct) (auto simp: less_char_def)

lemma navigate_append:
  "navigateToPath fs (xs @ ys) t =
     (case navigateToPath fs xs t of None \<Rightarrow> None | Some u \<Rightarrow> navigateToPath fs ys u)"
  by (induction xs arbitrary: t) (auto split: option.splits)

section \<open>Name validation\<close>

text \<open>
  Claim C1, as the specification words it, fails on the empty name: \<^verbatim>\<open>isValidName\<close> only
  looks for the separator, so \<^verbatim>\<open>mkdir\<close> and \<^verbatim>\<open>touch\<close> accept the empty string on a fresh
  tree, report no error and add a child filed under the empty key.
\<close>

theorem C1_counterexample:
  "mkdir [] FileSystem_init \<noteq> (Some InvalidName, FileSystem_init) \<and>
   fst (mkdir [] FileSystem_init) = None \<and>
   children (heap (snd (mkdir [] FileSystem_init)) ! currentDirectory (snd (mkdir [] FileSystem_init)))
     \<noteq> children (heap FileSystem_init ! currentDirectory FileSystem_init) \<and>
   touch [] FileSystem_init \<noteq> (Some InvalidName, FileSystem_init) \<and>
   fst (touch [] FileSystem_init) = None \<and>
   children (heap (snd (touch [] FileSystem_init)) ! currentDirectory (snd (touch [] FileSystem_init)))
     \<noteq> children (heap FileSystem_init ! currentDirectory FileSystem_init)"
  by (simp add: mkdir_def touch_def isValidName_def nameExists_def map_count_def new_child_def
      FileSystem_init_def)

lemma create_fresh:
  assumes cur: "currentDirectory fs < length (heap fs)"
    and valid: "CHR ''/'' \<notin> set nm"
    and fresh: "map_of (children (heap fs ! currentDirectory fs)) nm = None"
  shows "mkdir nm fs = (None, new_child nm DIRECTORY fs)"
    and "touch nm fs = (None, new_child nm FILE fs)"
    and "currentDirectory (new_child nm ty fs) = currentDirectory fs"
    and "map_of (children (heap (new_child nm ty fs) ! currentDirectory fs)) nm =
           Some (length (heap fs))"
    and "type (heap (new_child nm ty fs) ! length (heap fs)) = ty"
    and "name (heap (new_child nm ty fs) ! length (heap fs)) = nm"
proof -
  from valid fresh show "mkdir nm fs = (None, new_child nm DIRECTORY fs)"
    by (simp add: mkdir_def isValidName_def nameExists_def map_count_def)
  from valid fresh show "touch nm fs = (None, new_child nm FILE fs)"
    by (simp add: touch_def isValidName_def nameExists_def map_count_def)
  show "currentDirectory (new_child nm ty fs) = currentDirectory fs"
    by (simp add: cursor_new_child)
  from cur show "map_of (children (heap (new_child nm ty fs) ! currentDirectory fs)) nm =
      Some (length (heap fs))"
    by (simp add: lookup_new_child)
  from cur show "type (heap (new_child nm ty fs) ! length (heap fs)) = ty"
    by (simp add: fields_new_child)
  from cur show "name (heap (new_child nm ty fs) ! length (heap fs)) = nm"
    by (simp add: fields_new_child)
qed

text \<open>
  Claim C1, amended: in every state and for every name, \<^verbatim>\<open>mkdir\<close> and \<^verbatim>\<open>touch\<close> report
  \<open>InvalidName\<close> exactly when the name contains the separator, and then they leave the
  whole state as it was. The empty name is not rejected: in every reachable state whose
  cursor has no child filed under the empty key, \<^verbatim>\<open>mkdir\<close> and \<^verbatim>\<open>touch\<close> of the empty
  name report no error, keep the cursor, and file under the empty key of the cursor a
  new node with the empty name, a directory for \<^verbatim>\<open>mkdir\<close> and a file for \<^verbatim>\<open>touch\<close>.
\<close>

theorem C1_invalid_name:
  "(fst (mkdir nm fs) = Some InvalidName \<longleftrightarrow> CHR ''/'' \<in> set nm) \<and>
   (fst (touch nm fs) = Some InvalidName \<longleftrightarrow> CHR ''/'' \<in> set nm) \<and>
   (CHR ''/'' \<in> set nm \<longrightarrow>
      mkdir nm fs = (Some InvalidName, fs) \<and> touch nm fs = (Some InvalidName, fs)) \<and>
   (map_of (children (heap (run cs) ! currentDirectory (run cs))) [] = None \<longrightarrow>
      fst (mkdir [] (run cs)) = None \<and>
      currentDirectory (snd (mkdir [] (run cs))) = currentDirectory (run cs) \<and>
      (\<exists>c. map_of (children (heap (snd (mkdir [] (run cs))) ! currentDirectory (run cs))) [] =
             Some c \<and>
           length (heap (run cs)) \<le> c \<and>
           type (heap (snd (mkdir [] (run cs))) ! c) = DIRECTORY \<and>
           name (heap (snd (mkdir [] (run cs))) ! c) = []) \<and>
      fst (touch [] (run cs)) = None \<and>
      currentDirectory (snd (touch [] (run cs))) = currentDirectory (run cs) \<and>
      (\<exists>c. map_of (children (heap (snd (touch [] (run cs))) ! currentDirectory (run cs))) [] =
             Some c \<and>
           length (heap (run cs)) \<le> c \<and>
           type (heap (snd (touch [] (run cs))) ! c) = FILE \<and>
           name (heap (snd (touch [] (run cs))) ! c) = []))"
proof (intro conjI impI)
  show "fst (mkdir nm fs) = Some InvalidName \<longleftrightarrow> CHR ''/'' \<in> set nm"
    by (simp add: mkdir_def isValidName_def)
  show "fst (touch nm fs) = Some InvalidName \<longleftrightarrow> CHR ''/'' \<in> set nm"
    by (simp add: touch_def isValidName_def)
next
  assume "CHR ''/'' \<in> set nm"
  then show "mkdir nm fs = (Some InvalidName, fs)" "touch nm fs = (Some InvalidName, fs)"
    by (simp_all add: mkdir_def touch_def isValidName_def)
next
  let ?s = "run cs"
  assume fresh: "map_of (children (heap ?s ! currentDirectory ?s)) [] = None"
  have cur: "currentDirectory ?s < length (heap ?s)"
    using inv_run[of cs] unfolding fs_inv_def by simp
  have valid: "CHR ''/'' \<notin> set []" by simp
  note f = create_fresh[OF cur valid fresh]
  from f(1) show "fst (mkdir [] ?s) = None" by simp
  from f(1) f(3) show "currentDirectory (snd (mkdir [] ?s)) = currentDirectory ?s" by simp
  from f(2) show "fst (touch [] ?s) = None" by simp
  from f(2) f(3) show "currentDirectory (snd (touch [] ?s)) = currentDirectory ?s" by simp
  have "map_of (children (heap (snd (mkdir [] ?s)) ! currentDirectory ?s)) [] =
          Some (length (heap ?s)) \<and>
        length (heap ?s) \<le> length (heap ?s) \<and>
        type (heap (snd (mkdir [] ?s)) ! length (heap ?s)) = DIRECTORY \<and>
        name (heap (snd (mkdir [] ?s)) ! length (heap ?s)) = []"
    using f(1) f(4)[of DIRECTORY] f(5)[of DIRECTORY] f(6)[of DIRECTORY] by simp
  then show "\<exists>c. map_of (children (heap (snd (mkdir [] ?s)) ! currentDirectory ?s)) [] = Some c \<and>
      length (heap ?s) \<le> c \<and>
      type (heap (snd (mkdir [] ?s)) ! c) = DIRECTORY \<and> name (heap (snd (mkdir [] ?s)) ! c) = []"
    by (rule exI)
  have "map_of (children (heap (snd (touch [] ?s)) ! currentDirectory ?s)) [] =
          Some (length (heap ?s)) \<and>
        length (heap ?s) \<le> length (heap ?s) \<and>
        type (heap (snd (touch [] ?s)) ! length (heap ?s)) = FILE \<and>
        name (heap (snd (touch [] ?s)) ! length (heap ?s)) = []"
    using f(2) f(4)[of FILE] f(5)[of FILE] f(6)[of FILE] by simp
  then show "\<exists>c. map_of (children (heap (snd (touch [] ?s)) ! currentDirectory ?s)) [] = Some c \<and>
      length (heap ?s) \<le> c \<and>
      type (heap (snd (touch [] ?s)) ! c) = FILE \<and> name (heap (snd (touch [] ?s)) ! c) = []"
    by (rule exI)
qed

text \<open>
  The hypotheses of C1 at the name \<^verbatim>\<open>a/b\<close>, and at the empty name on a tree that already
  has a directory \<^verbatim>\<open>a\<close> and is not at its root.
\<close>

theorem C1_invalid_name_witness:
  "CHR ''/'' \<in> set ''a/b'' \<and>
   mkdir ''a/b'' FileSystem_init = (Some InvalidName, FileSystem_init) \<and>
   touch ''a/b'' FileSystem_init = (Some InvalidName, FileSystem_init) \<and>
   map_of (children (heap (run [Mkdir ''a'', Cd ''a'', Touch ''f'']) !
     currentDirectory (run [Mkdir ''a'', Cd ''a'', Touch ''f'']))) [] = None \<and>
   fst (mkdir [] (run [Mkdir ''a'', Cd ''a'', Touch ''f''])) = None \<and>
   fst (touch [] (run [Mkdir ''a'', Cd ''a'', Touch ''f''])) = None \<and>
   map_of (children (heap (snd (mkdir [] (run [Mkdir ''a'', Cd ''a'', Touch ''f'']))) ! 1)) [] =
     Some 3 \<and>
   type (heap (snd (touch [] (run [Mkdir ''a'', Cd ''a'', Touch ''f'']))) ! 3) = FILE"
proof -
  let ?s = "run [Mkdir ''a'', Cd ''a'', Touch ''f'']"
  note defs = run_def mkdir_def touch_def cd_def cd_start_def isValidName_def nameExists_def
    map_count_def new_child_def FileSystem_init_def splitPath_def
  note inst = C1_invalid_name[of "''a/b''" FileSystem_init "[Mkdir ''a'', Cd ''a'', Touch ''f'']"]
  have a: "CHR ''/'' \<in> set ''a/b''" by simp
  with inst have 1: "mkdir ''a/b'' FileSystem_init = (Some InvalidName, FileSystem_init)"
    "touch ''a/b'' FileSystem_init = (Some InvalidName, FileSystem_init)"
    by blast+
  have b: "map_of (children (heap ?s ! currentDirectory ?s)) [] = None"
    by (simp add: defs)
  with inst have 2: "fst (mkdir [] ?s) = None" "fst (touch [] ?s) = None"
    by blast+
  have 3: "map_of (children (heap (snd (mkdir [] ?s)) ! 1)) [] = Some 3"
    by (simp add: defs)
  have 4: "type (heap (snd (touch [] ?s)) ! 3) = FILE"
    by (simp add: defs)
  from a 1 b 2 3 4 show ?thesis by blast
qed

section \<open>Cursor, listing, creation and navigation\<close>

lemma inv_cursor_ok: "fs_inv fs \<Longrightarrow> cursor_ok fs"
  unfolding fs_inv_def cursor_ok_def by auto

lemma run_snoc: "run (cs @ [c]) = exec c (run cs)"
  by (simp add: run_def)

lemma inv_parts:
  assumes "fs_inv fs"
  shows "root fs = 0" "root_ok (heap fs)" "child_ok (heap fs)" "parent_ok (heap fs)"
    "sorted_ok (heap fs)" "file_ok (heap fs)" "currentDirectory fs < length (heap fs)"
    "type (heap fs ! currentDirectory fs) = DIRECTORY"
  using assms unfolding fs_inv_def heap_ok_def by simp_all

text \<open>
  Claim C9: the cursor refers to a live directory that is reachable from the root, in
  the fresh \<^verbatim>\<open>FileSystem\<close>, after every sequence of operations, and after one more
  operation of any kind on top of it, whether that operation reports an error or not.
\<close>

theorem C9_cursor_invariant:
  "cursor_ok FileSystem_init \<and> cursor_ok (run cs) \<and> cursor_ok (exec c (run cs))"
  using inv_cursor_ok[OF inv_init] inv_cursor_ok[OF inv_run, of cs]
    inv_cursor_ok[OF inv_exec[OF inv_run], of c cs]
  by simp

lemma count_list_distinct: "distinct xs \<Longrightarrow> x \<in> set xs \<Longrightarrow> count_list xs x = 1"
  by (induction xs) auto

lemma keys_ls_entries:
  "map fst (ls_entries fs) = map fst (children (heap fs ! currentDirectory fs))"
  by (simp add: ls_entries_def case_prod_beta comp_def)

lemma sorted_cursor:
  assumes "fs_inv fs"
  shows "sorted_wrt (<) (map fst (children (heap fs ! currentDirectory fs)))"
  using inv_parts(5,7)[OF assms] unfolding sorted_ok_def by blast

text \<open>
  Claim C5: in every reachable state the entries that \<^verbatim>\<open>ls\<close> iterates over are in
  ascending byte-lexicographic order of their names, no name occurs twice, the entries
  are exactly the cursor's children with their types, and an empty directory gives the
  empty list. \<open>ls_entries\<close> is a total function: there is no error outcome.
\<close>

theorem C5_ls_sorted:
  "sorted_wrt bytes_less (map fst (ls_entries (run cs))) \<and>
   distinct (map fst (ls_entries (run cs))) \<and>
   set (ls_entries (run cs)) =
     {(k, type (heap (run cs) ! c)) | k c.
        map_of (children (heap (run cs) ! currentDirectory (run cs))) k = Some c} \<and>
   (ls_entries (run cs) = [] \<longleftrightarrow> children (heap (run cs) ! currentDirectory (run cs)) = [])"
proof -
  let ?ps = "children (heap (run cs) ! currentDirectory (run cs))"
  have s: "sorted_wrt (<) (map fst ?ps)"
    using inv_run by (rule sorted_cursor)
  then have d: "distinct (map fst ?ps)"
    by (simp add: strict_sorted_iff)
  have "bytes_less = (<)"
    by (intro ext) (rule bytes_less_iff)
  with s have "sorted_wrt bytes_less (map fst (ls_entries (run cs)))"
    by (simp add: keys_ls_entries)
  moreover from d have "distinct (map fst (ls_entries (run cs)))"
    by (simp add: keys_ls_entries)
  moreover have "set (ls_entries (run cs)) =
     {(k, type (heap (run cs) ! c)) | k c. map_of ?ps k = Some c}"
    using d by (auto simp: ls_entries_def)
  moreover have "ls_entries (run cs) = [] \<longleftrightarrow> ?ps = []"
    by (simp add: ls_entries_def)
  ultimately show ?thesis by blast
qed

lemma key_valid:
  assumes "fs_inv fs" "map_of (children (heap fs ! currentDirectory fs)) nm = Some c"
  shows "CHR ''/'' \<notin> set nm"
proof -
  from inv_parts(3,7)[OF assms(1)] assms(2)
  have c: "currentDirectory fs < c" "c < length (heap fs)" "name (heap fs ! c) = nm"
    unfolding child_ok_def by blast+
  then have "0 < c" by simp
  with inv_parts(4)[OF assms(1)] c(2) have "CHR ''/'' \<notin> set (name (heap fs ! c))"
    unfolding parent_ok_def by blast
  with c(3) show ?thesis by simp
qed

lemma exists_inv:
  assumes "fs_inv fs" "map_of (children (heap fs ! currentDirectory fs)) nm \<noteq> None"
  shows "mkdir nm fs = (Some AlreadyExists, fs)" "touch nm fs = (Some AlreadyExists, fs)"
proof -
  from assms(2) obtain c where "map_of (children (heap fs ! currentDirectory fs)) nm = Some c"
    by auto
  from key_valid[OF assms(1) this] have "isValidName nm"
    by (simp add: isValidName_def)
  moreover from assms(2) have "nameExists fs nm"
    by (simp add: nameExists_def map_count_pos)
  ultimately show "mkdir nm fs = (Some AlreadyExists, fs)" "touch nm fs = (Some AlreadyExists, fs)"
    by (simp_all add: mkdir_def touch_def)
qed

lemma mkdir_present:
  assumes "fs_inv fs" "CHR ''/'' \<notin> set nm"
  shows "map_of (children (heap (snd (mkdir nm fs)) ! currentDirectory (snd (mkdir nm fs)))) nm \<noteq> None"
proof (cases "nameExists fs nm")
  case True
  with assms(2) show ?thesis
    by (simp add: mkdir_def isValidName_def nameExists_def map_count_pos)
next
  case False
  with assms(2) have "snd (mkdir nm fs) = new_child nm DIRECTORY fs"
    by (simp add: mkdir_def isValidName_def)
  then show ?thesis
    using inv_parts(7)[OF assms(1)] by (simp add: cursor_new_child lookup_new_child)
qed

text \<open>
  Claim C6: in every reachable state, when the cursor's map has the key \<open>nm\<close>, both
  \<^verbatim>\<open>mkdir\<close> and \<^verbatim>\<open>touch\<close> report \<open>AlreadyExists\<close> and return the state as it was. In
  particular a second \<^verbatim>\<open>mkdir\<close> of the same valid name reports \<open>AlreadyExists\<close>, and
  the listing shows the name once.
\<close>

theorem C6_already_exists:
  "(map_of (children (heap (run cs) ! currentDirectory (run cs))) nm \<noteq> None \<longrightarrow>
      mkdir nm (run cs) = (Some AlreadyExists, run cs) \<and>
      touch nm (run cs) = (Some AlreadyExists, run cs)) \<and>
   (CHR ''/'' \<notin> set x \<longrightarrow>
      mkdir x (snd (mkdir x (run cs))) = (Some AlreadyExists, snd (mkdir x (run cs))) \<and>
      count_list (map fst (ls_entries (snd (mkdir x (run cs))))) x = 1)"
proof (intro conjI impI)
  assume "map_of (children (heap (run cs) ! currentDirectory (run cs))) nm \<noteq> None"
  with inv_run show "mkdir nm (run cs) = (Some AlreadyExists, run cs)"
    "touch nm (run cs) = (Some AlreadyExists, run cs)"
    by (rule exists_inv)+
next
  assume x: "CHR ''/'' \<notin> set x"
  let ?s = "snd (mkdir x (run cs))"
  have i: "fs_inv ?s" using inv_run by (rule inv_mkdir)
  have p: "map_of (children (heap ?s ! currentDirectory ?s)) x \<noteq> None"
    using inv_run x by (rule mkdir_present)
  from i p show "mkdir x ?s = (Some AlreadyExists, ?s)" by (rule exists_inv)
  have "distinct (map fst (children (heap ?s ! currentDirectory ?s)))"
    using sorted_cursor[OF i] by (simp add: strict_sorted_iff)
  moreover from p have "x \<in> set (map fst (children (heap ?s ! currentDirectory ?s)))"
    by (metis map_of_eq_None_iff set_map)
  ultimately show "count_list (map fst (ls_entries ?s)) x = 1"
    unfolding keys_ls_entries by (rule count_list_distinct)
qed


lemmas eval_defs = run_def mkdir_def touch_def cd_def cd_start_def isValidName_def nameExists_def
  map_count_def new_child_def FileSystem_init_def splitPath_def

text \<open>The hypotheses of C6 hold after \<^verbatim>\<open>mkdir x\<close> on the fresh tree.\<close>

theorem C6_already_exists_witness:
  "map_of (children (heap (run [Mkdir ''x'']) ! currentDirectory (run [Mkdir ''x'']))) ''x'' \<noteq> None \<and>
   mkdir ''x'' (run [Mkdir ''x'']) = (Some AlreadyExists, run [Mkdir ''x'']) \<and>
   touch ''x'' (run [Mkdir ''x'']) = (Some AlreadyExists, run [Mkdir ''x'']) \<and>
   CHR ''/'' \<notin> set ''x'' \<and>
   mkdir ''x'' (snd (mkdir ''x'' (run []))) = (Some AlreadyExists, snd (mkdir ''x'' (run []))) \<and>
   count_list (map fst (ls_entries (snd (mkdir ''x'' (run []))))) ''x'' = 1"
proof -
  have a: "map_of (children (heap (run [Mkdir ''x'']) ! currentDirectory (run [Mkdir ''x'']))) ''x'' \<noteq> None"
    by (simp add: eval_defs)
  have b: "CHR ''/'' \<notin> set ''x''" by simp
  from C6_already_exists[of "[Mkdir ''x'']" "''x''" "''x''"] a
  have 1: "mkdir ''x'' (run [Mkdir ''x'']) = (Some AlreadyExists, run [Mkdir ''x''])"
    "touch ''x'' (run [Mkdir ''x'']) = (Some AlreadyExists, run [Mkdir ''x''])"
    by blast+
  from C6_already_exists[of "[]" "''x''" "''x''"] b
  have 2: "mkdir ''x'' (snd (mkdir ''x'' (run []))) = (Some AlreadyExists, snd (mkdir ''x'' (run [])))"
    "count_list (map fst (ls_entries (snd (mkdir ''x'' (run []))))) ''x'' = 1"
    by blast+
  from a b 1 2 show ?thesis by blast
qed

lemma root_parent: "fs_inv fs \<Longrightarrow> parent (heap fs ! root fs) = None"
  using inv_parts(1,2)[of fs] by (simp add: root_ok_def)

lemma splitPath_dotdot: "splitPath ''..'' = [''..'']"
  by (simp add: splitPath_def)

text \<open>
  Claim C7: in every reachable state a \<^verbatim>\<open>..\<close> segment met at the root leaves the
  resolution at the root, at the start of the segments or after a prefix that led back
  to the root, and \<^verbatim>\<open>cd ..\<close> with the cursor at the root succeeds without changing the
  state.
\<close>

theorem C7_dotdot_at_root:
  "navigateToPath (run cs) (''..'' # parts) (root (run cs)) =
     navigateToPath (run cs) parts (root (run cs)) \<and>
   (navigateToPath (run cs) pre start = Some (root (run cs)) \<longrightarrow>
      navigateToPath (run cs) (pre @ ''..'' # post) start =
        navigateToPath (run cs) post (root (run cs))) \<and>
   (currentDirectory (run cs) = root (run cs) \<longrightarrow> cd ''..'' (run cs) = (None, run cs))"
proof -
  have rp: "parent (heap (run cs) ! root (run cs)) = None"
    using inv_run by (rule root_parent)
  then have up: "navigateToPath (run cs) (''..'' # ps) (root (run cs)) =
      navigateToPath (run cs) ps (root (run cs))" for ps
    by simp
  have "navigateToPath (run cs) (pre @ ''..'' # post) start =
      navigateToPath (run cs) post (root (run cs))"
    if "navigateToPath (run cs) pre start = Some (root (run cs))"
    using that up[of post] by (simp add: navigate_append)
  moreover have "cd ''..'' (run cs) = (None, run cs)"
    if "currentDirectory (run cs) = root (run cs)"
  proof -
    have "cd_start ''..'' (run cs) = root (run cs)"
      using that by (simp add: cd_start_def)
    moreover have "navigateToPath (run cs) [''..''] (root (run cs)) = Some (root (run cs))"
      using up[of "[]"] by simp
    moreover have "(run cs)\<lparr>currentDirectory := root (run cs)\<rparr> = run cs"
      using that by simp
    ultimately show ?thesis
      by (simp add: cd_def splitPath_dotdot)
  qed
  ultimately show ?thesis using up[of parts] by blast
qed

text \<open>The hypotheses of C7 on the tree with one directory \<^verbatim>\<open>a\<close>.\<close>

theorem C7_dotdot_at_root_witness:
  "navigateToPath (run [Mkdir ''a'']) [''a'', ''..''] 0 = Some (root (run [Mkdir ''a''])) \<and>
   navigateToPath (run [Mkdir ''a'']) ([''a'', ''..''] @ ''..'' # [''a'']) 0 =
     navigateToPath (run [Mkdir ''a'']) [''a''] (root (run [Mkdir ''a''])) \<and>
   currentDirectory (run [Mkdir ''a'']) = root (run [Mkdir ''a'']) \<and>
   cd ''..'' (run [Mkdir ''a'']) = (None, run [Mkdir ''a''])"
proof -
  have a: "navigateToPath (run [Mkdir ''a'']) [''a'', ''..''] 0 = Some (root (run [Mkdir ''a'']))"
    by (simp add: eval_defs)
  have b: "currentDirectory (run [Mkdir ''a'']) = root (run [Mkdir ''a''])"
    by (simp add: eval_defs)
  from C7_dotdot_at_root[of "[Mkdir ''a'']" "[]" "[''a'', ''..'']" 0 "[''a'']"] a b
  show ?thesis by blast
qed

lemma splitPath_root: "splitPath ''/'' = []"
  by (simp add: splitPath_def)

lemma navigate_fails_at:
  assumes "navigateToPath fs pre start = Some t" "seg \<noteq> ''.''" "seg \<noteq> ''..''"
    "map_of (children (heap fs ! t)) seg = None \<or>
     (\<exists>c. map_of (children (heap fs ! t)) seg = Some c \<and> type (heap fs ! c) = FILE)"
  shows "navigateToPath fs (pre @ seg # post) start = None"
  using assms by (auto simp: navigate_append map_count_def)

lemma cd_fails_at:
  assumes "splitPath path = pre @ seg # post"
    "navigateToPath fs pre (cd_start path fs) = Some t" "seg \<noteq> ''.''" "seg \<noteq> ''..''"
    "map_of (children (heap fs ! t)) seg = None \<or>
     (\<exists>c. map_of (children (heap fs ! t)) seg = Some c \<and> type (heap fs ! c) = FILE)"
  shows "cd path fs = (Some InvalidPath, fs)"
proof -
  from assms(1) have "path \<noteq> ''/''"
    using splitPath_root by auto
  moreover have "navigateToPath fs (splitPath path) (cd_start path fs) = None"
    unfolding assms(1) using assms(2-5) by (rule navigate_fails_at)
  ultimately show ?thesis by (simp add: cd_def)
qed

lemma cd_failure_unchanged: "fst (cd path fs) = Some InvalidPath \<Longrightarrow> snd (cd path fs) = fs"
  by (auto simp: cd_def split: if_splits option.splits)

lemma splitPath_loop_read:
  "CHR ''/'' \<notin> set k \<Longrightarrow>
     splitPath_loop (k @ rest) part parts = splitPath_loop rest (part @ k) parts"
  by (induction k arbitrary: part) auto

lemma splitPath_single:
  assumes "CHR ''/'' \<notin> set nm" "nm \<noteq> []"
  shows "splitPath nm = [nm]"
  using splitPath_loop_read[OF assms(1), of "[]" "[]" "[]"] assms(2)
  by (simp add: splitPath_def)

lemma cd_into_new_file:
  assumes "fs_inv fs" "fst (touch nm fs) = None" "nm \<noteq> []" "nm \<noteq> ''.''" "nm \<noteq> ''..''"
  shows "cd nm (snd (touch nm fs)) = (Some InvalidPath, snd (touch nm fs))"
proof -
  let ?s = "new_child nm FILE fs"
  from assms(2) have s: "snd (touch nm fs) = ?s"
    by (auto simp: touch_def split: if_splits)
  from assms(2) have valid: "CHR ''/'' \<notin> set nm"
    by (auto simp: touch_def isValidName_def split: if_splits)
  then have split: "splitPath nm = [nm]"
    using assms(3) by (rule splitPath_single)
  from valid have start: "cd_start nm ?s = currentDirectory fs"
    by (cases nm) (auto simp: cd_start_def cursor_new_child)
  have cur: "currentDirectory fs < length (heap fs)"
    using assms(1) by (rule inv_parts)
  have "map_of (children (heap ?s ! currentDirectory fs)) nm = Some (length (heap fs))"
    using cur by (simp add: lookup_new_child)
  moreover have "type (heap ?s ! length (heap fs)) = FILE"
    using cur by (simp add: fields_new_child)
  ultimately have "cd nm ?s = (Some InvalidPath, ?s)"
    using split assms(4,5) start
    by (intro cd_fails_at[where pre = "[]" and post = "[]" and seg = nm
          and t = "currentDirectory fs"]) simp_all
  with s show ?thesis by simp
qed

text \<open>
  Claim C3: when the resolution of the segments before \<open>seg\<close> arrives at a node \<open>t\<close>
  and \<open>seg\<close> (neither \<^verbatim>\<open>.\<close> nor \<^verbatim>\<open>..\<close>) names no child of \<open>t\<close> or a child that is a
  file, \<^verbatim>\<open>cd\<close> reports \<open>InvalidPath\<close> and returns the state as it was; a \<^verbatim>\<open>cd\<close> that
  reports \<open>InvalidPath\<close> never changes the state; and after a successful
  \<^verbatim>\<open>touch a.txt\<close> in a reachable state, \<^verbatim>\<open>cd a.txt\<close> reports \<open>InvalidPath\<close> and leaves
  the state as it was.
\<close>

theorem C3_cd_all_or_nothing:
  "(splitPath path = pre @ seg # post \<and>
    navigateToPath fs pre (cd_start path fs) = Some t \<and> seg \<noteq> ''.'' \<and> seg \<noteq> ''..'' \<and>
    (map_of (children (heap fs ! t)) seg = None \<or>
     (\<exists>c. map_of (children (heap fs ! t)) seg = Some c \<and> type (heap fs ! c) = FILE)) \<longrightarrow>
      cd path fs = (Some InvalidPath, fs)) \<and>
   (fst (cd path fs) = Some InvalidPath \<longrightarrow> snd (cd path fs) = fs) \<and>
   (fst (touch ''a.txt'' (run cs)) = None \<longrightarrow>
      cd ''a.txt'' (snd (touch ''a.txt'' (run cs))) =
        (Some InvalidPath, snd (touch ''a.txt'' (run cs))))"
proof (intro conjI impI)
  assume "splitPath path = pre @ seg # post \<and>
    navigateToPath fs pre (cd_start path fs) = Some t \<and> seg \<noteq> ''.'' \<and> seg \<noteq> ''..'' \<and>
    (map_of (children (heap fs ! t)) seg = None \<or>
     (\<exists>c. map_of (children (heap fs ! t)) seg = Some c \<and> type (heap fs ! c) = FILE))"
  then show "cd path fs = (Some InvalidPath, fs)"
    using cd_fails_at[of path pre seg post fs t] by blast
next
  assume "fst (cd path fs) = Some InvalidPath"
  then show "snd (cd path fs) = fs" by (rule cd_failure_unchanged)
next
  assume "fst (touch ''a.txt'' (run cs)) = None"
  with inv_run show "cd ''a.txt'' (snd (touch ''a.txt'' (run cs))) =
        (Some InvalidPath, snd (touch ''a.txt'' (run cs)))"
    by (rule cd_into_new_file) simp_all
qed


text \<open>
  The hypotheses of C3 on a tree with \<^verbatim>\<open>/d/a.txt\<close>: the path \<^verbatim>\<open>/d/a.txt/e\<close> fails at
  its second segment.
\<close>

theorem C3_cd_all_or_nothing_witness:
  "splitPath ''/d/a.txt/e'' = [''d''] @ ''a.txt'' # [''e''] \<and>
   navigateToPath (run [Mkdir ''d'', Cd ''d'', Touch ''a.txt''])
     [''d''] (cd_start ''/d/a.txt/e'' (run [Mkdir ''d'', Cd ''d'', Touch ''a.txt''])) = Some 1 \<and>
   map_of (children (heap (run [Mkdir ''d'', Cd ''d'', Touch ''a.txt'']) ! 1)) ''a.txt'' = Some 2 \<and>
   type (heap (run [Mkdir ''d'', Cd ''d'', Touch ''a.txt'']) ! 2) = FILE \<and>
   cd ''/d/a.txt/e'' (run [Mkdir ''d'', Cd ''d'', Touch ''a.txt'']) =
     (Some InvalidPath, run [Mkdir ''d'', Cd ''d'', Touch ''a.txt'']) \<and>
   snd (cd ''/d/a.txt/e'' (run [Mkdir ''d'', Cd ''d'', Touch ''a.txt''])) =
     run [Mkdir ''d'', Cd ''d'', Touch ''a.txt''] \<and>
   fst (touch ''a.txt'' (run [])) = None \<and>
   cd ''a.txt'' (snd (touch ''a.txt'' (run []))) = (Some InvalidPath, snd (touch ''a.txt'' (run [])))"
proof -
  let ?s = "run [Mkdir ''d'', Cd ''d'', Touch ''a.txt'']"
  have a: "splitPath ''/d/a.txt/e'' = [''d''] @ ''a.txt'' # [''e'']"
    by (simp add: splitPath_def)
  have b: "navigateToPath ?s [''d''] (cd_start ''/d/a.txt/e'' ?s) = Some 1"
    by (simp add: eval_defs)
  have c: "map_of (children (heap ?s ! 1)) ''a.txt'' = Some 2"
    by (simp add: eval_defs)
  have d: "type (heap ?s ! 2) = FILE"
    by (simp add: eval_defs)
  have e: "fst (touch ''a.txt'' (run [])) = None"
    by (simp add: eval_defs)
  note inst = C3_cd_all_or_nothing[of "''/d/a.txt/e''" "[''d'']" "''a.txt''" "[''e'']" ?s 1 "[]"]
  from inst a b c d have 1: "cd ''/d/a.txt/e'' ?s = (Some InvalidPath, ?s)"
    by blast
  then have "fst (cd ''/d/a.txt/e'' ?s) = Some InvalidPath" by simp
  with inst have 2: "snd (cd ''/d/a.txt/e'' ?s) = ?s" by blast
  from inst e have 3: "cd ''a.txt'' (snd (touch ''a.txt'' (run []))) =
      (Some InvalidPath, snd (touch ''a.txt'' (run [])))" by blast
  from a b c d e 1 2 3 show ?thesis by blast
qed

section \<open>Paths\<close>

lemma names_along_walk:
  assumes "child_ok h"
  shows "a < length h \<Longrightarrow> walk h a ks = Some b \<Longrightarrow> names_along h a ks = Some ks"
proof (induction ks arbitrary: a)
  case Nil
  then show ?case by simp
next
  case (Cons k ks)
  from Cons.prems obtain c where c: "map_of (children (h ! a)) k = Some c" "walk h c ks = Some b"
    by (auto split: option.splits)
  from assms Cons.prems(1) c(1) have "c < length h" "name (h ! c) = k"
    unfolding child_ok_def by blast+
  with Cons.IH[OF _ c(2)] c(1) show ?case by simp
qed

lemma absolute_path_snoc:
  "ks \<noteq> [] \<Longrightarrow> absolute_path (ks @ [k]) = absolute_path ks @ ''/'' @ k"
  by (simp add: absolute_path_def)

lemma getPath_root: "getPath fs (root fs) = Some ''/''"
  by (subst getPath.simps) simp

lemma getPath_walk:
  assumes r: "root fs = 0" and h: "child_ok (heap fs)" and len: "0 < length (heap fs)"
  shows "walk (heap fs) 0 ks = Some a \<Longrightarrow> getPath fs a = Some (absolute_path ks)"
proof (induction ks arbitrary: a rule: rev_induct)
  case Nil
  then have "a = root fs" using r by simp
  then show ?case by (simp add: getPath_root absolute_path_def)
next
  case (snoc k ks)
  from snoc.prems obtain q where q: "walk (heap fs) 0 ks = Some q"
    "map_of (children (heap fs ! q)) k = Some a"
    unfolding walk_snoc by blast
  from walk_range[OF h len q(1)] have ql: "q < length (heap fs)" and qz: "ks \<noteq> [] \<longrightarrow> 0 < q"
    by simp_all
  from h ql q(2) have a: "q < a" "parent (heap fs ! a) = Some q" "name (heap fs ! a) = k"
    unfolding child_ok_def by blast+
  from a(1) r have ne: "a \<noteq> root fs" by simp
  show ?case
  proof (cases "q = 0")
    case True
    with q(1) have "ks = []" using walk_to_root[OF h len] by simp
    with True ne a r show ?thesis
      by (subst getPath.simps) (simp add: absolute_path_def)
  next
    case False
    with q(1) have ks: "ks \<noteq> []" by auto
    from snoc.IH[OF q(1)] have "getPath fs q = Some (absolute_path ks)" .
    with False ne a r show ?thesis
      by (subst getPath.simps) (simp add: absolute_path_snoc[OF ks])
  qed
qed

lemma walk_keys_valid:
  assumes c: "child_ok h" and p: "parent_ok h"
  shows "a < length h \<Longrightarrow> walk h a ks = Some b \<Longrightarrow> \<forall>k \<in> set ks. CHR ''/'' \<notin> set k"
proof (induction ks arbitrary: a)
  case Nil
  then show ?case by simp
next
  case (Cons k ks)
  from Cons.prems obtain d where d: "map_of (children (h ! a)) k = Some d" "walk h d ks = Some b"
    by (auto split: option.splits)
  from c Cons.prems(1) d(1) have dd: "a < d" "d < length h" "name (h ! d) = k"
    unfolding child_ok_def by blast+
  then have "0 < d" by simp
  with p dd(2) have "CHR ''/'' \<notin> set (name (h ! d))"
    unfolding parent_ok_def by blast
  with dd(3) Cons.IH[OF dd(2) d(2)] show ?case by simp
qed

lemma last_absolute_path:
  assumes "ks \<noteq> []" "\<forall>k \<in> set ks. k \<noteq> [] \<and> CHR ''/'' \<notin> set k"
  shows "last (absolute_path ks) \<noteq> CHR ''/''"
proof -
  from assms(1) obtain ks' k where ks: "ks = ks' @ [k]"
    by (metis rev_exhaust)
  with assms(2) have k: "k \<noteq> []" "CHR ''/'' \<notin> set k" by simp_all
  from ks have "absolute_path ks = concat (map (\<lambda>n. CHR ''/'' # n) ks') @ CHR ''/'' # k"
    by (simp add: absolute_path_def)
  with k(1) have "last (absolute_path ks) = last k" by simp
  with k show ?thesis by (metis last_in_set)
qed

lemma inv_path:
  assumes "fs_inv fs"
  obtains ks where "walk (heap fs) 0 ks = Some (currentDirectory fs)"
    "\<forall>k \<in> set ks. plain k" "\<forall>k \<in> set ks. CHR ''/'' \<notin> set k"
    "pwd fs = Some (absolute_path ks)"
proof -
  from assms obtain ks where ks: "walk (heap fs) 0 ks = Some (currentDirectory fs)"
    "\<forall>k \<in> set ks. plain k"
    unfolding fs_inv_def by blast
  from inv_parts(2)[OF assms] have len: "0 < length (heap fs)"
    unfolding root_ok_def by simp
  have "\<forall>k \<in> set ks. CHR ''/'' \<notin> set k"
    using inv_parts(3,4)[OF assms] len ks(1) by (rule walk_keys_valid)
  moreover have "pwd fs = Some (absolute_path ks)"
    unfolding pwd_def using inv_parts(1,3)[OF assms] len ks(1) by (rule getPath_walk)
  ultimately show ?thesis using ks that by blast
qed

text \<open>
  Claim C4: in every reachable state \<^verbatim>\<open>pwd\<close> returns; it gives \<^verbatim>\<open>/\<close> when the cursor is
  the root; for the keys \<open>ks\<close> that lead from the root to the cursor it gives the
  separator followed by the name of each node on the way, one after the other; off the
  root the result does not end in a separator; and after \<^verbatim>\<open>mkdir home\<close>, \<^verbatim>\<open>cd home\<close> on a
  fresh tree it gives \<^verbatim>\<open>/home\<close>.
\<close>

theorem C4_current_path:
  "(currentDirectory (run cs) = root (run cs) \<longrightarrow> pwd (run cs) = Some ''/'') \<and>
   (\<exists>ks. walk (heap (run cs)) (root (run cs)) ks = Some (currentDirectory (run cs))) \<and>
   (walk (heap (run cs)) (root (run cs)) ks = Some (currentDirectory (run cs)) \<longrightarrow>
      (\<exists>ns. names_along (heap (run cs)) (root (run cs)) ks = Some ns \<and>
            pwd (run cs) = Some (absolute_path ns))) \<and>
   (currentDirectory (run cs) \<noteq> root (run cs) \<longrightarrow>
      (\<exists>p. pwd (run cs) = Some p \<and> last p \<noteq> CHR ''/'')) \<and>
   pwd (run [Mkdir ''home'', Cd ''home'']) = Some ''/home''"
proof -
  let ?s = "run cs"
  have i: "fs_inv ?s" by (rule inv_run)
  note r = inv_parts(1)[OF i] and c = inv_parts(3)[OF i]
  from inv_parts(2)[OF i] have len: "0 < length (heap ?s)"
    unfolding root_ok_def by simp
  have 1: "pwd ?s = Some ''/''" if "currentDirectory ?s = root ?s"
    using that getPath_root[of ?s] by (simp add: pwd_def)
  from i obtain ks0 where ks0: "walk (heap ?s) 0 ks0 = Some (currentDirectory ?s)"
    "\<forall>k \<in> set ks0. plain k" "\<forall>k \<in> set ks0. CHR ''/'' \<notin> set k"
    "pwd ?s = Some (absolute_path ks0)"
    by (rule inv_path)
  from ks0(1) r have 2: "\<exists>ks. walk (heap ?s) (root ?s) ks = Some (currentDirectory ?s)"
    by auto
  have 3: "\<exists>ns. names_along (heap ?s) (root ?s) ks = Some ns \<and> pwd ?s = Some (absolute_path ns)"
    if "walk (heap ?s) (root ?s) ks = Some (currentDirectory ?s)"
  proof -
    from that r have w: "walk (heap ?s) 0 ks = Some (currentDirectory ?s)" by simp
    from names_along_walk[OF c len w] have "names_along (heap ?s) (root ?s) ks = Some ks"
      using r by simp
    moreover from getPath_walk[OF r c len w] have "pwd ?s = Some (absolute_path ks)"
      by (simp add: pwd_def)
    ultimately show ?thesis by blast
  qed
  have 4: "\<exists>p. pwd ?s = Some p \<and> last p \<noteq> CHR ''/''" if "currentDirectory ?s \<noteq> root ?s"
  proof -
    from that ks0(1) r have "ks0 \<noteq> []" by auto
    moreover from ks0(2,3) have "\<forall>k \<in> set ks0. k \<noteq> [] \<and> CHR ''/'' \<notin> set k"
      by (simp add: plain_def)
    ultimately have "last (absolute_path ks0) \<noteq> CHR ''/''" by (rule last_absolute_path)
    with ks0(4) show ?thesis by blast
  qed
  have 5: "pwd (run [Mkdir ''home'', Cd ''home'']) = Some ''/home''"
    by (simp add: eval_defs pwd_def getPath.simps)
  from 1 2 3 4 5 show ?thesis by blast
qed

text \<open>The hypotheses of C4 at the directory \<^verbatim>\<open>/a/b\<close> and at the root.\<close>

theorem C4_current_path_witness:
  "walk (heap (run [Mkdir ''a'', Cd ''a'', Mkdir ''b'', Cd ''b'']))
     (root (run [Mkdir ''a'', Cd ''a'', Mkdir ''b'', Cd ''b''])) [''a'', ''b''] =
     Some (currentDirectory (run [Mkdir ''a'', Cd ''a'', Mkdir ''b'', Cd ''b''])) \<and>
   names_along (heap (run [Mkdir ''a'', Cd ''a'', Mkdir ''b'', Cd ''b'']))
     (root (run [Mkdir ''a'', Cd ''a'', Mkdir ''b'', Cd ''b''])) [''a'', ''b''] = Some [''a'', ''b''] \<and>
   pwd (run [Mkdir ''a'', Cd ''a'', Mkdir ''b'', Cd ''b'']) = Some ''/a/b'' \<and>
   currentDirectory (run [Mkdir ''a'', Cd ''a'', Mkdir ''b'', Cd ''b'']) \<noteq>
     root (run [Mkdir ''a'', Cd ''a'', Mkdir ''b'', Cd ''b'']) \<and>
   (\<exists>p. pwd (run [Mkdir ''a'', Cd ''a'', Mkdir ''b'', Cd ''b'']) = Some p \<and> last p \<noteq> CHR ''/'') \<and>
   currentDirectory (run []) = root (run []) \<and> pwd (run []) = Some ''/''"
proof -
  let ?s = "run [Mkdir ''a'', Cd ''a'', Mkdir ''b'', Cd ''b'']"
  have a: "walk (heap ?s) (root ?s) [''a'', ''b''] = Some (currentDirectory ?s)"
    by (simp add: eval_defs)
  have b: "names_along (heap ?s) (root ?s) [''a'', ''b''] = Some [''a'', ''b'']"
    by (simp add: eval_defs)
  from C4_current_path[of "[Mkdir ''a'', Cd ''a'', Mkdir ''b'', Cd ''b'']" "[''a'', ''b'']"] a b
  have 1: "pwd ?s = Some (absolute_path [''a'', ''b''])"
    by auto
  have c: "currentDirectory (run []) = root (run [])"
    by (simp add: eval_defs)
  from C4_current_path[of "[]" "[]"] c have 2: "pwd (run []) = Some ''/''"
    by blast
  have d: "currentDirectory ?s \<noteq> root ?s"
    by (simp add: eval_defs)
  from C4_current_path[of "[Mkdir ''a'', Cd ''a'', Mkdir ''b'', Cd ''b'']" "[''a'', ''b'']"] d
  have 3: "\<exists>p. pwd ?s = Some p \<and> last p \<noteq> CHR ''/''"
    by blast
  from 1 have 4: "pwd ?s = Some ''/a/b''" by (simp add: absolute_path_def)
  from a b c d 2 3 4 show ?thesis by blast
qed


lemma splitPath_loop_render:
  "\<forall>k \<in> set ks. k \<noteq> [] \<and> CHR ''/'' \<notin> set k \<Longrightarrow>
   splitPath_loop (concat (map (\<lambda>n. CHR ''/'' # n) ks)) part parts =
     (if part \<noteq> [] then parts @ [part] else parts) @ ks"
proof (induction ks arbitrary: part parts)
  case Nil
  then show ?case by simp
next
  case (Cons k ks)
  let ?rest = "concat (map (\<lambda>n. CHR ''/'' # n) ks)"
  let ?parts = "if part \<noteq> [] then parts @ [part] else parts"
  from Cons.prems have k: "k \<noteq> []" "CHR ''/'' \<notin> set k"
    and ks: "\<forall>k \<in> set ks. k \<noteq> [] \<and> CHR ''/'' \<notin> set k" by simp_all
  have "splitPath_loop (concat (map (\<lambda>n. CHR ''/'' # n) (k # ks))) part parts =
        splitPath_loop (k @ ?rest) [] ?parts"
    by (simp only: list.map concat.simps append_Cons splitPath_loop.simps refl if_True)
  also have "\<dots> = splitPath_loop ?rest k ?parts"
    using splitPath_loop_read[OF k(2), of ?rest "[]" ?parts] by simp
  also have "\<dots> = (?parts @ [k]) @ ks"
    using Cons.IH[OF ks, of k ?parts] k(1) by simp
  finally show ?case by simp
qed

lemma splitPath_absolute_path:
  assumes "\<forall>k \<in> set ks. k \<noteq> [] \<and> CHR ''/'' \<notin> set k"
  shows "splitPath (absolute_path ks) = ks"
proof (cases "ks = []")
  case True
  then show ?thesis by (simp add: absolute_path_def splitPath_def)
next
  case False
  with splitPath_loop_render[OF assms, of "[]" "[]"] show ?thesis
    by (simp add: absolute_path_def splitPath_def)
qed

lemma walk_dir:
  assumes f: "file_ok h" and c: "child_ok h"
  shows "a < length h \<Longrightarrow> walk h a ks = Some b \<Longrightarrow> type (h ! b) = DIRECTORY \<Longrightarrow>
         type (h ! a) = DIRECTORY"
proof (cases ks)
  case Nil
  assume "walk h a ks = Some b" "type (h ! b) = DIRECTORY"
  with Nil show ?thesis by simp
next
  case (Cons k ks')
  assume a: "a < length h" and "walk h a ks = Some b"
  with Cons have "children (h ! a) \<noteq> []" by (auto split: option.splits)
  with f a have "type (h ! a) \<noteq> FILE" unfolding file_ok_def by blast
  then show ?thesis by (cases "type (h ! a)") simp_all
qed

lemma navigate_walk:
  assumes f: "file_ok (heap fs)" and c: "child_ok (heap fs)"
  shows "a < length (heap fs) \<Longrightarrow> walk (heap fs) a ks = Some b \<Longrightarrow>
         type (heap fs ! b) = DIRECTORY \<Longrightarrow> \<forall>k \<in> set ks. plain k \<Longrightarrow>
         navigateToPath fs ks a = Some b"
proof (induction ks arbitrary: a)
  case Nil
  then show ?case by simp
next
  case (Cons k ks)
  from Cons.prems(2) obtain d where d: "map_of (children (heap fs ! a)) k = Some d"
    "walk (heap fs) d ks = Some b"
    by (auto split: option.splits)
  from c Cons.prems(1) d(1) have dl: "d < length (heap fs)"
    unfolding child_ok_def by blast
  from Cons.prems(4) have k: "k \<noteq> ''..''" "k \<noteq> ''.''" and ks: "\<forall>k \<in> set ks. plain k"
    by (simp_all add: plain_def)
  have "type (heap fs ! a) = DIRECTORY"
    using f c Cons.prems(1,2,3) by (rule walk_dir)
  moreover have "type (heap fs ! d) = DIRECTORY"
    using f c dl d(2) Cons.prems(3) by (rule walk_dir)
  moreover have "navigateToPath fs ks d = Some b"
    using dl d(2) Cons.prems(3) ks by (rule Cons.IH)
  ultimately show ?case using k d(1) by (simp add: map_count_def)
qed

lemma cd_pwd:
  assumes "fs_inv fs"
  shows "\<exists>p. pwd fs = Some p \<and> cd p fs = (None, fs)"
proof -
  from assms obtain ks where ks: "walk (heap fs) 0 ks = Some (currentDirectory fs)"
    "\<forall>k \<in> set ks. plain k" "\<forall>k \<in> set ks. CHR ''/'' \<notin> set k"
    "pwd fs = Some (absolute_path ks)"
    by (rule inv_path)
  note r = inv_parts(1)[OF assms]
  from inv_parts(2)[OF assms] have len: "0 < length (heap fs)"
    unfolding root_ok_def by simp
  have same: "fs\<lparr>currentDirectory := currentDirectory fs\<rparr> = fs" by simp
  have "cd (absolute_path ks) fs = (None, fs)"
  proof (cases ks)
    case Nil
    with ks(1) r have "currentDirectory fs = root fs" by simp
    with Nil same show ?thesis by (simp add: cd_def absolute_path_def)
  next
    case (Cons k ks')
    with ks(2) have "k \<noteq> []" by (simp add: plain_def)
    with Cons have ne: "absolute_path ks \<noteq> ''/''"
      by (cases k) (simp_all add: absolute_path_def)
    from Cons have "cd_start (absolute_path ks) fs = root fs"
      by (simp add: absolute_path_def cd_start_def)
    moreover from ks(2,3) have "splitPath (absolute_path ks) = ks"
      by (intro splitPath_absolute_path) (simp add: plain_def)
    moreover have "navigateToPath fs ks 0 = Some (currentDirectory fs)"
      using inv_parts(6,3)[OF assms] len ks(1) inv_parts(8)[OF assms] ks(2)
      by (rule navigate_walk)
    ultimately show ?thesis using ne r same by (simp add: cd_def)
  qed
  with ks(4) show ?thesis by blast
qed

text \<open>
  Claim C8: in every reachable state \<^verbatim>\<open>pwd\<close> returns some path, and \<^verbatim>\<open>cd\<close> to that path
  reports no error and returns the state as it was, cursor included.
\<close>

theorem C8_cd_current_path:
  "\<exists>p. pwd (run cs) = Some p \<and> cd p (run cs) = (None, run cs)"
  using inv_run by (rule cd_pwd)


lemma heap_cd: "heap (snd (cd path fs)) = heap fs"
  by (simp add: cd_def split: option.splits)

lemma cursor_name:
  assumes "fs_inv fs"
  shows "name (heap fs ! currentDirectory fs) \<noteq> ''..'' \<and>
         name (heap fs ! currentDirectory fs) \<noteq> ''.''"
proof -
  from assms obtain ks where ks: "walk (heap fs) 0 ks = Some (currentDirectory fs)"
    "\<forall>k \<in> set ks. plain k"
    unfolding fs_inv_def by blast
  from inv_parts(2)[OF assms] have len: "0 < length (heap fs)" and rn: "name (heap fs ! 0) = ''/''"
    unfolding root_ok_def by simp_all
  show ?thesis
  proof (cases ks rule: rev_cases)
    case Nil
    with ks(1) rn show ?thesis by simp
  next
    case (snoc ks' k)
    with ks(1) have "walk (heap fs) 0 (ks' @ [k]) = Some (currentDirectory fs)" by simp
    then obtain q where q: "walk (heap fs) 0 ks' = Some q"
      "map_of (children (heap fs ! q)) k = Some (currentDirectory fs)"
      unfolding walk_snoc by blast
    from walk_range[OF inv_parts(3)[OF assms] len q(1)] have "q < length (heap fs)" by simp
    with inv_parts(3)[OF assms] q(2) have "name (heap fs ! currentDirectory fs) = k"
      unfolding child_ok_def by blast
    moreover from snoc ks(2) have "plain k" by simp
    ultimately show ?thesis by (auto simp: plain_def)
  qed
qed

lemma mkdir_fresh:
  assumes "CHR ''/'' \<notin> set nm" "map_of (children (heap fs ! currentDirectory fs)) nm = None"
  shows "mkdir nm fs = (None, new_child nm DIRECTORY fs)"
  using assms by (simp add: mkdir_def isValidName_def nameExists_def map_count_def)

lemma never_into:
  assumes "fs_inv fs" "name (heap fs ! c) = ''..'' \<or> name (heap fs ! c) = ''.''"
  shows "currentDirectory (snd (cd path fs)) \<noteq> c"
proof
  assume "currentDirectory (snd (cd path fs)) = c"
  with cursor_name[OF inv_cd[OF assms(1), of path]] assms(2) show False
    by (simp add: heap_cd)
qed

lemma mkdir_dots:
  assumes i: "fs_inv fs" and fresh: "map_of (children (heap fs ! currentDirectory fs)) nm = None"
    and nm: "nm = ''..'' \<or> nm = ''.''"
  defines "s1 \<equiv> snd (mkdir nm fs)"
  shows "fst (mkdir nm fs) = None"
    and "map_of (children (heap s1 ! currentDirectory s1)) nm = Some (length (heap fs))"
    and "type (heap s1 ! length (heap fs)) = DIRECTORY"
    and "name (heap s1 ! length (heap fs)) = nm"
    and "currentDirectory (snd (cd path s1)) \<noteq> length (heap fs)"
    and "parent (heap s1 ! currentDirectory s1) = parent (heap fs ! currentDirectory fs)"
    and "currentDirectory s1 = currentDirectory fs"
proof -
  from nm have valid: "CHR ''/'' \<notin> set nm" by auto
  note m = mkdir_fresh[OF valid fresh]
  note cur = inv_parts(7)[OF i]
  from m show "fst (mkdir nm fs) = None" by simp
  from m have s1: "s1 = new_child nm DIRECTORY fs" by (simp add: s1_def)
  show "map_of (children (heap s1 ! currentDirectory s1)) nm = Some (length (heap fs))"
    unfolding s1 using cur by (simp add: cursor_new_child lookup_new_child)
  show "type (heap s1 ! length (heap fs)) = DIRECTORY"
    unfolding s1 using cur by (simp add: fields_new_child)
  show n: "name (heap s1 ! length (heap fs)) = nm"
    unfolding s1 using cur by (simp add: fields_new_child)
  have "fs_inv s1" unfolding s1_def using i by (rule inv_mkdir)
  then show "currentDirectory (snd (cd path s1)) \<noteq> length (heap fs)"
    using n nm by (intro never_into) auto
  show "parent (heap s1 ! currentDirectory s1) = parent (heap fs ! currentDirectory fs)"
    unfolding s1 using cur by (simp add: cursor_new_child fields_new_child)
  show "currentDirectory s1 = currentDirectory fs"
    unfolding s1 by (simp add: cursor_new_child)
qed

lemma cd_dotdot:
  "cd ''..'' fs = (None, fs\<lparr>currentDirectory :=
      (case parent (heap fs ! currentDirectory fs) of None \<Rightarrow> currentDirectory fs | Some p \<Rightarrow> p)\<rparr>)"
  by (simp add: cd_def cd_start_def splitPath_def split: option.splits)

lemma cd_dot: "cd ''.'' fs = (None, fs)"
  by (simp add: cd_def cd_start_def splitPath_def)

text \<open>
  Claim C10: in a reachable state whose cursor has no child \<^verbatim>\<open>..\<close>, \<^verbatim>\<open>mkdir ..\<close> succeeds
  and files a directory named \<^verbatim>\<open>..\<close> under the cursor; \<^verbatim>\<open>cd ..\<close> then moves to the
  cursor's parent, or stays where the cursor has none, and no \<^verbatim>\<open>cd\<close> at all ends in the
  new child. The same holds for \<^verbatim>\<open>.\<close>, where \<^verbatim>\<open>cd .\<close> stays. In no reachable state is
  the cursor a node named \<^verbatim>\<open>..\<close> or \<^verbatim>\<open>.\<close>.
\<close>

theorem C10_dot_names:
  "(map_of (children (heap (run cs) ! currentDirectory (run cs))) ''..'' = None \<longrightarrow>
      (let s1 = snd (mkdir ''..'' (run cs)) in
       fst (mkdir ''..'' (run cs)) = None \<and>
       (\<exists>c. map_of (children (heap s1 ! currentDirectory s1)) ''..'' = Some c \<and>
            type (heap s1 ! c) = DIRECTORY \<and> name (heap s1 ! c) = ''..'' \<and>
            cd ''..'' s1 = (None, s1\<lparr>currentDirectory :=
               (case parent (heap s1 ! currentDirectory s1) of
                  None \<Rightarrow> currentDirectory s1 | Some p \<Rightarrow> p)\<rparr>) \<and>
            (\<forall>path. currentDirectory (snd (cd path s1)) \<noteq> c)))) \<and>
   (map_of (children (heap (run cs) ! currentDirectory (run cs))) ''.'' = None \<longrightarrow>
      (let s1 = snd (mkdir ''.'' (run cs)) in
       fst (mkdir ''.'' (run cs)) = None \<and>
       (\<exists>c. map_of (children (heap s1 ! currentDirectory s1)) ''.'' = Some c \<and>
            type (heap s1 ! c) = DIRECTORY \<and> name (heap s1 ! c) = ''.'' \<and>
            cd ''.'' s1 = (None, s1) \<and>
            (\<forall>path. currentDirectory (snd (cd path s1)) \<noteq> c)))) \<and>
   name (heap (run cs) ! currentDirectory (run cs)) \<noteq> ''..'' \<and>
   name (heap (run cs) ! currentDirectory (run cs)) \<noteq> ''.''"
proof (intro conjI impI)
  assume fresh: "map_of (children (heap (run cs) ! currentDirectory (run cs))) ''..'' = None"
  note d = mkdir_dots[OF inv_run fresh]
  show "let s1 = snd (mkdir ''..'' (run cs)) in
       fst (mkdir ''..'' (run cs)) = None \<and>
       (\<exists>c. map_of (children (heap s1 ! currentDirectory s1)) ''..'' = Some c \<and>
            type (heap s1 ! c) = DIRECTORY \<and> name (heap s1 ! c) = ''..'' \<and>
            cd ''..'' s1 = (None, s1\<lparr>currentDirectory :=
               (case parent (heap s1 ! currentDirectory s1) of
                  None \<Rightarrow> currentDirectory s1 | Some p \<Rightarrow> p)\<rparr>) \<and>
            (\<forall>path. currentDirectory (snd (cd path s1)) \<noteq> c))"
    unfolding Let_def
    using d(1) d(2) d(3) d(4) d(5) cd_dotdot[of "snd (mkdir ''..'' (run cs))"]
    by (intro conjI exI[of _ "length (heap (run cs))"] allI) simp_all
next
  assume fresh: "map_of (children (heap (run cs) ! currentDirectory (run cs))) ''.'' = None"
  note d = mkdir_dots[OF inv_run fresh]
  show "let s1 = snd (mkdir ''.'' (run cs)) in
       fst (mkdir ''.'' (run cs)) = None \<and>
       (\<exists>c. map_of (children (heap s1 ! currentDirectory s1)) ''.'' = Some c \<and>
            type (heap s1 ! c) = DIRECTORY \<and> name (heap s1 ! c) = ''.'' \<and>
            cd ''.'' s1 = (None, s1) \<and>
            (\<forall>path. currentDirectory (snd (cd path s1)) \<noteq> c))"
    unfolding Let_def
    using d(1) d(2) d(3) d(4) d(5) cd_dot[of "snd (mkdir ''.'' (run cs))"]
    by (intro conjI exI[of _ "length (heap (run cs))"] allI) simp_all
next
  show "name (heap (run cs) ! currentDirectory (run cs)) \<noteq> ''..''"
    "name (heap (run cs) ! currentDirectory (run cs)) \<noteq> ''.''"
    using cursor_name[OF inv_run, of cs] by simp_all
qed


text \<open>The hypotheses of C10 inside the directory \<^verbatim>\<open>/a\<close>.\<close>

theorem C10_dot_names_witness:
  "map_of (children (heap (run [Mkdir ''a'', Cd ''a'']) !
     currentDirectory (run [Mkdir ''a'', Cd ''a'']))) ''..'' = None \<and>
   map_of (children (heap (run [Mkdir ''a'', Cd ''a'']) !
     currentDirectory (run [Mkdir ''a'', Cd ''a'']))) ''.'' = None \<and>
   fst (mkdir ''..'' (run [Mkdir ''a'', Cd ''a''])) = None \<and>
   fst (mkdir ''.'' (run [Mkdir ''a'', Cd ''a''])) = None \<and>
   map_of (children (heap (snd (mkdir ''..'' (run [Mkdir ''a'', Cd ''a'']))) ! 1)) ''..'' = Some 2 \<and>
   currentDirectory (snd (cd ''..'' (snd (mkdir ''..'' (run [Mkdir ''a'', Cd ''a''])))))  = 0 \<and>
   (\<forall>path. currentDirectory (snd (cd path (snd (mkdir ''..'' (run [Mkdir ''a'', Cd ''a'']))))) \<noteq> 2)"
proof -
  let ?s = "run [Mkdir ''a'', Cd ''a'']"
  let ?s1 = "snd (mkdir ''..'' ?s)"
  have a: "map_of (children (heap ?s ! currentDirectory ?s)) ''..'' = None"
    by (simp add: eval_defs)
  have b: "map_of (children (heap ?s ! currentDirectory ?s)) ''.'' = None"
    by (simp add: eval_defs)
  have c: "currentDirectory ?s1 = 1"
    by (simp add: eval_defs)
  have d: "map_of (children (heap ?s1 ! 1)) ''..'' = Some 2"
    by (simp add: eval_defs)
  have e: "parent (heap ?s1 ! 1) = Some 0"
    by (simp add: eval_defs)
  note inst = C10_dot_names[of "[Mkdir ''a'', Cd ''a'']", unfolded Let_def]
  from inst a b have 1: "fst (mkdir ''..'' ?s) = None" "fst (mkdir ''.'' ?s) = None"
    by blast+
  from inst a obtain n where n: "map_of (children (heap ?s1 ! currentDirectory ?s1)) ''..'' = Some n"
    "cd ''..'' ?s1 = (None, ?s1\<lparr>currentDirectory :=
       (case parent (heap ?s1 ! currentDirectory ?s1) of
          None \<Rightarrow> currentDirectory ?s1 | Some p \<Rightarrow> p)\<rparr>)"
    "\<forall>path. currentDirectory (snd (cd path ?s1)) \<noteq> n"
    by blast
  from n(1) c d have "n = 2" by simp
  with n(3) have 2: "\<forall>path. currentDirectory (snd (cd path ?s1)) \<noteq> 2" by simp
  from n(2) c e have 3: "currentDirectory (snd (cd ''..'' ?s1)) = 0" by simp
  from a b 1 d 2 3 show ?thesis by blast
qed

section \<open>Search\<close>

subsection \<open>find_helper against the traversal\<close>

lemma find_children_preorder:
  assumes step: "\<And>a res xs. preorder d (heap fs) a = Some xs \<Longrightarrow>
      \<forall>b \<in> set xs. getPath fs b \<noteq> None \<Longrightarrow>
      \<exists>ps. find_helper d fs a nm res = Some (res @ ps) \<and>
        list_all2 (\<lambda>b p. getPath fs b = Some p) (filter (\<lambda>b. name (heap fs ! b) = nm) xs) ps"
  shows "preorder_children d (heap fs) es = Some xs \<Longrightarrow>
      \<forall>b \<in> set xs. getPath fs b \<noteq> None \<Longrightarrow>
      \<exists>ps. find_children d fs es nm res = Some (res @ ps) \<and>
        list_all2 (\<lambda>b p. getPath fs b = Some p) (filter (\<lambda>b. name (heap fs ! b) = nm) xs) ps"
proof (induction es arbitrary: res xs)
  case Nil
  then show ?case by simp
next
  case (Cons e es)
  from Cons.prems(1) obtain ys zs where ys: "preorder d (heap fs) (snd e) = Some ys"
    and zs: "preorder_children d (heap fs) es = Some zs" and xs: "xs = ys @ zs"
    by (auto split: option.splits)
  from Cons.prems(2) xs have gy: "\<forall>b \<in> set ys. getPath fs b \<noteq> None"
    and gz: "\<forall>b \<in> set zs. getPath fs b \<noteq> None" by simp_all
  from step[OF ys gy, of res] obtain ps where ps: "find_helper d fs (snd e) nm res = Some (res @ ps)"
    "list_all2 (\<lambda>b p. getPath fs b = Some p) (filter (\<lambda>b. name (heap fs ! b) = nm) ys) ps"
    by blast
  from Cons.IH[OF zs gz, of "res @ ps"] obtain qs where
    qs: "find_children d fs es nm (res @ ps) = Some ((res @ ps) @ qs)"
    "list_all2 (\<lambda>b p. getPath fs b = Some p) (filter (\<lambda>b. name (heap fs ! b) = nm) zs) qs"
    by blast
  from ps(1) qs(1) have "find_children d fs (e # es) nm res = Some (res @ (ps @ qs))" by simp
  moreover from ps(2) qs(2) xs
  have "list_all2 (\<lambda>b p. getPath fs b = Some p) (filter (\<lambda>b. name (heap fs ! b) = nm) xs) (ps @ qs)"
    by (simp add: list_all2_appendI)
  ultimately show ?case by blast
qed

lemma find_helper_preorder:
  "preorder d (heap fs) a = Some xs \<Longrightarrow> \<forall>b \<in> set xs. getPath fs b \<noteq> None \<Longrightarrow>
   \<exists>ps. find_helper d fs a nm res = Some (res @ ps) \<and>
     list_all2 (\<lambda>b p. getPath fs b = Some p) (filter (\<lambda>b. name (heap fs ! b) = nm) xs) ps"
proof (induction d arbitrary: a res xs)
  case 0
  then show ?case by simp
next
  case (Suc d)
  have kids: "\<exists>ps. find_children d fs es nm r = Some (r @ ps) \<and>
      list_all2 (\<lambda>b p. getPath fs b = Some p) (filter (\<lambda>b. name (heap fs ! b) = nm) ys) ps"
    if a1: "preorder_children d (heap fs) es = Some ys"
      and a2: "\<forall>b \<in> set ys. getPath fs b \<noteq> None" for es r ys
  proof (rule find_children_preorder[OF _ a1 a2])
    fix a res xs
    assume "preorder d (heap fs) a = Some xs" "\<forall>b \<in> set xs. getPath fs b \<noteq> None"
    then show "\<exists>ps. find_helper d fs a nm res = Some (res @ ps) \<and>
      list_all2 (\<lambda>b p. getPath fs b = Some p) (filter (\<lambda>b. name (heap fs ! b) = nm) xs) ps"
      by (rule Suc.IH)
  qed
  show ?case
  proof (cases "type (heap fs ! a) = DIRECTORY")
    case True
    with Suc.prems(1) obtain ys where ys: "preorder_children d (heap fs) (children (heap fs ! a)) = Some ys"
      and xs: "xs = a # ys"
      by auto
    from Suc.prems(2) xs obtain p where p: "getPath fs a = Some p"
      and gy: "\<forall>b \<in> set ys. getPath fs b \<noteq> None" by auto
    define res1 where "res1 = (if name (heap fs ! a) = nm then res @ [p] else res)"
    from kids[OF ys gy, of res1] obtain qs where
      qs: "find_children d fs (children (heap fs ! a)) nm res1 = Some (res1 @ qs)"
      "list_all2 (\<lambda>b p. getPath fs b = Some p) (filter (\<lambda>b. name (heap fs ! b) = nm) ys) qs"
      by blast
    show ?thesis
    proof (cases "name (heap fs ! a) = nm")
      case m: True
      with True p qs(1) have "find_helper (Suc d) fs a nm res = Some (res @ (p # qs))"
        by (simp add: res1_def)
      moreover from m p qs(2) xs have "list_all2 (\<lambda>b p. getPath fs b = Some p)
          (filter (\<lambda>b. name (heap fs ! b) = nm) xs) (p # qs)" by simp
      ultimately show ?thesis by blast
    next
      case m: False
      with True qs(1) have "find_helper (Suc d) fs a nm res = Some (res @ qs)"
        by (simp add: res1_def)
      moreover from m qs(2) xs have "list_all2 (\<lambda>b p. getPath fs b = Some p)
          (filter (\<lambda>b. name (heap fs ! b) = nm) xs) qs" by simp
      ultimately show ?thesis by blast
    qed
  next
    case False
    with Suc.prems(1) have xs: "xs = [a]" by simp
    with Suc.prems(2) obtain p where p: "getPath fs a = Some p" by auto
    show ?thesis
    proof (cases "name (heap fs ! a) = nm")
      case m: True
      with False p have "find_helper (Suc d) fs a nm res = Some (res @ [p])" by simp
      moreover from m p xs have "list_all2 (\<lambda>b p. getPath fs b = Some p)
          (filter (\<lambda>b. name (heap fs ! b) = nm) xs) [p]" by simp
      ultimately show ?thesis by blast
    next
      case m: False
      with False have "find_helper (Suc d) fs a nm res = Some (res @ [])" by simp
      moreover from m xs have "list_all2 (\<lambda>b p. getPath fs b = Some p)
          (filter (\<lambda>b. name (heap fs ! b) = nm) xs) []" by simp
      ultimately show ?thesis by blast
    qed
  qed
qed


subsection \<open>The traversal lists every node once\<close>

lemma preorder_head: "preorder d h a = Some xs \<Longrightarrow> \<exists>ys. xs = a # ys"
  by (cases d) (auto split: if_splits)

lemma preorder_children_total:
  "\<forall>e \<in> set es. \<exists>ys. preorder d h (snd e) = Some ys \<Longrightarrow>
   \<exists>xs. preorder_children d h es = Some xs"
  by (induction es) auto

lemma preorder_children_mem:
  "preorder_children d h es = Some xs \<Longrightarrow> b \<in> set xs \<Longrightarrow>
   \<exists>e \<in> set es. \<exists>ys. preorder d h (snd e) = Some ys \<and> b \<in> set ys"
proof (induction es arbitrary: xs)
  case Nil
  then show ?case by simp
next
  case (Cons e es)
  from Cons.prems(1) obtain ys zs where ys: "preorder d h (snd e) = Some ys"
    and zs: "preorder_children d h es = Some zs" and xs: "xs = ys @ zs"
    by (auto split: option.splits)
  from Cons.prems(2) xs have "b \<in> set ys \<or> b \<in> set zs" by simp
  then show ?case
  proof
    assume "b \<in> set ys"
    with ys show ?thesis by auto
  next
    assume "b \<in> set zs"
    from Cons.IH[OF zs this] show ?thesis by auto
  qed
qed

lemma preorder_children_sub:
  "preorder_children d h es = Some xs \<Longrightarrow> e \<in> set es \<Longrightarrow>
   \<exists>ys. preorder d h (snd e) = Some ys \<and> set ys \<subseteq> set xs"
proof (induction es arbitrary: xs)
  case Nil
  then show ?case by simp
next
  case (Cons e' es)
  from Cons.prems(1) obtain ys zs where ys: "preorder d h (snd e') = Some ys"
    and zs: "preorder_children d h es = Some zs" and xs: "xs = ys @ zs"
    by (auto split: option.splits)
  from Cons.prems(2) have "e = e' \<or> e \<in> set es" by auto
  then show ?case
  proof
    assume "e = e'"
    with ys xs show ?thesis by auto
  next
    assume "e \<in> set es"
    from Cons.IH[OF zs this] xs show ?thesis by auto
  qed
qed

lemma child_entry:
  assumes "sorted_ok h" "child_ok h" "a < length h" "e \<in> set (children (h ! a))"
  shows "map_of (children (h ! a)) (fst e) = Some (snd e)" "a < snd e" "snd e < length h"
proof -
  from assms(1,3) have "distinct (map fst (children (h ! a)))"
    unfolding sorted_ok_def by (simp add: strict_sorted_iff)
  moreover from assms(4) have "(fst e, snd e) \<in> set (children (h ! a))" by simp
  ultimately show m: "map_of (children (h ! a)) (fst e) = Some (snd e)"
    by (rule map_of_is_SomeI)
  from assms(2,3) m show "a < snd e" "snd e < length h"
    unfolding child_ok_def by blast+
qed

lemma preorder_total:
  assumes s: "sorted_ok h" and c: "child_ok h"
  shows "a < length h \<Longrightarrow> length h \<le> d + a \<Longrightarrow> \<exists>xs. preorder d h a = Some xs"
proof (induction d arbitrary: a)
  case 0
  then show ?case by simp
next
  case (Suc d)
  have "\<forall>e \<in> set (children (h ! a)). \<exists>ys. preorder d h (snd e) = Some ys"
  proof
    fix e
    assume "e \<in> set (children (h ! a))"
    from child_entry(2,3)[OF s c Suc.prems(1) this] Suc.prems(2)
    have "snd e < length h" "length h \<le> d + snd e" by simp_all
    then show "\<exists>ys. preorder d h (snd e) = Some ys" by (rule Suc.IH)
  qed
  from preorder_children_total[OF this] show ?case by auto
qed

lemma preorder_below:
  assumes s: "sorted_ok h" and c: "child_ok h"
  shows "a < length h \<Longrightarrow> preorder d h a = Some xs \<Longrightarrow> b \<in> set xs \<Longrightarrow>
         b < length h \<and> (\<exists>ks. walk h a ks = Some b)"
proof (induction d arbitrary: a xs b)
  case 0
  then show ?case by simp
next
  case (Suc d)
  show ?case
  proof (cases "b = a")
    case True
    with Suc.prems(1) have "walk h a [] = Some b" by simp
    with True Suc.prems(1) show ?thesis by blast
  next
    case False
    with Suc.prems(2,3) obtain ys where ys: "preorder_children d h (children (h ! a)) = Some ys"
      "b \<in> set ys"
      by (auto split: if_splits)
    from preorder_children_mem[OF ys] obtain e zs where e: "e \<in> set (children (h ! a))"
      "preorder d h (snd e) = Some zs" "b \<in> set zs"
      by blast
    note ce = child_entry[OF s c Suc.prems(1) e(1)]
    from Suc.IH[OF ce(3) e(2) e(3)] obtain ks where "b < length h" "walk h (snd e) ks = Some b"
      by blast
    with ce(1) have "b < length h" "walk h a (fst e # ks) = Some b" by simp_all
    then show ?thesis by blast
  qed
qed

lemma preorder_closed:
  "preorder d h a = Some xs \<Longrightarrow> b \<in> set xs \<Longrightarrow> type (h ! b) = DIRECTORY \<Longrightarrow>
   e \<in> set (children (h ! b)) \<Longrightarrow> snd e \<in> set xs"
proof (induction d arbitrary: a xs)
  case 0
  then show ?case by simp
next
  case (Suc d)
  show ?case
  proof (cases "type (h ! a) = DIRECTORY")
    case True
    with Suc.prems(1) obtain ys where ys: "preorder_children d h (children (h ! a)) = Some ys"
      and xs: "xs = a # ys"
      by auto
    show ?thesis
    proof (cases "b \<in> set ys")
      case True
      from preorder_children_mem[OF ys True] obtain e' zs where e': "e' \<in> set (children (h ! a))"
        "preorder d h (snd e') = Some zs" "b \<in> set zs"
        by blast
      from Suc.IH[OF e'(2) e'(3) Suc.prems(3,4)] have "snd e \<in> set zs" .
      moreover from preorder_children_sub[OF ys e'(1)] e'(2) have "set zs \<subseteq> set ys" by simp
      ultimately show ?thesis using xs by auto
    next
      case False
      with Suc.prems(2) xs have "b = a" by simp
      with Suc.prems(4) have "e \<in> set (children (h ! a))" by simp
      from preorder_children_sub[OF ys this] obtain zs where
        zs: "preorder d h (snd e) = Some zs" "set zs \<subseteq> set ys"
        by blast
      from preorder_head[OF zs(1)] zs(2) have "snd e \<in> set ys" by auto
      with xs show ?thesis by simp
    qed
  next
    case False
    with Suc.prems(1) have "xs = [a]" by simp
    with Suc.prems(2) have "b = a" by simp
    with False Suc.prems(3) show ?thesis by simp
  qed
qed

lemma preorder_all:
  assumes p: "parent_ok h" and t: "preorder d h 0 = Some xs"
  shows "a < length h \<Longrightarrow> a \<in> set xs"
proof (induction a rule: less_induct)
  case (less a)
  show ?case
  proof (cases "a = 0")
    case True
    with preorder_head[OF t] show ?thesis by auto
  next
    case False
    with p less.prems obtain q where q: "q < a" "type (h ! q) = DIRECTORY"
      "map_of (children (h ! q)) (name (h ! a)) = Some a"
      unfolding parent_ok_def by blast
    from q(1) less.prems have "q \<in> set xs" by (intro less.IH) simp_all
    moreover from q(3) have "(name (h ! a), a) \<in> set (children (h ! q))"
      by (rule map_of_SomeD)
    ultimately have "snd (name (h ! a), a) \<in> set xs"
      using t q(2) by (intro preorder_closed[where b = q and a = 0 and d = d and h = h])
    then show ?thesis by simp
  qed
qed

lemma walk_unique:
  assumes c: "child_ok h"
  shows "a < length h \<Longrightarrow> walk h a ks = Some b \<Longrightarrow> walk h a ks' = Some b \<Longrightarrow> ks = ks'"
proof (induction ks arbitrary: b ks' rule: rev_induct)
  case Nil
  then have "b = a" by simp
  with walk_range[OF c Nil.prems(1) Nil.prems(3)] show ?case by auto
next
  case (snoc k ks)
  from snoc.prems(2) obtain q where q: "walk h a ks = Some q" "map_of (children (h ! q)) k = Some b"
    unfolding walk_snoc by blast
  from walk_range[OF c snoc.prems(1) q(1)] have ql: "q < length h" "a \<le> q" by simp_all
  from c ql(1) q(2) have b: "q < b" "parent (h ! b) = Some q" "name (h ! b) = k"
    unfolding child_ok_def by blast+
  from ql(2) b(1) have "a \<noteq> b" by simp
  with snoc.prems(3) have "ks' \<noteq> []" by auto
  then obtain ks'' k' where ks': "ks' = ks'' @ [k']" by (metis rev_exhaust)
  with snoc.prems(3) have "walk h a (ks'' @ [k']) = Some b" by simp
  then obtain q' where q': "walk h a ks'' = Some q'"
    "map_of (children (h ! q')) k' = Some b"
    unfolding walk_snoc by blast
  from walk_range[OF c snoc.prems(1) q'(1)] have "q' < length h" by simp
  with c q'(2) have "parent (h ! b) = Some q'" "name (h ! b) = k'"
    unfolding child_ok_def by blast+
  with b have "q' = q" "k' = k" by simp_all
  with q'(1) snoc.IH[OF snoc.prems(1) q(1)] ks' show ?case by simp
qed


lemma preorder_children_distinct:
  assumes s: "sorted_ok h" and c: "child_ok h" and a: "a < length h"
    and step: "\<And>e ys. e \<in> set (children (h ! a)) \<Longrightarrow> preorder d h (snd e) = Some ys \<Longrightarrow> distinct ys"
  shows "set es \<subseteq> set (children (h ! a)) \<Longrightarrow> distinct (map fst es) \<Longrightarrow>
         preorder_children d h es = Some xs \<Longrightarrow> distinct xs"
proof (induction es arbitrary: xs)
  case Nil
  then show ?case by simp
next
  case (Cons e es)
  from Cons.prems(3) obtain ys zs where ys: "preorder d h (snd e) = Some ys"
    and zs: "preorder_children d h es = Some zs" and xs: "xs = ys @ zs"
    by (auto split: option.splits)
  from Cons.prems(1) have e: "e \<in> set (children (h ! a))"
    and es: "set es \<subseteq> set (children (h ! a))" by simp_all
  note ce = child_entry[OF s c a e]
  from step[OF e ys] have dy: "distinct ys" .
  from Cons.prems(2) have "distinct (map fst es)" by simp
  with Cons.IH[OF es _ zs] have dz: "distinct zs" by simp
  have "set ys \<inter> set zs = {}"
  proof (rule ccontr)
    assume "set ys \<inter> set zs \<noteq> {}"
    then obtain b where b: "b \<in> set ys" "b \<in> set zs" by auto
    from preorder_below[OF s c ce(3) ys b(1)] obtain ks1 where
      "walk h (snd e) ks1 = Some b" by blast
    with ce(1) have w1: "walk h a (fst e # ks1) = Some b" by simp
    from preorder_children_mem[OF zs b(2)] obtain e' ws where e': "e' \<in> set es"
      "preorder d h (snd e') = Some ws" "b \<in> set ws" by blast
    from e'(1) es have "e' \<in> set (children (h ! a))" by auto
    note ce' = child_entry[OF s c a this]
    from preorder_below[OF s c ce'(3) e'(2) e'(3)] obtain ks2 where
      "walk h (snd e') ks2 = Some b" by blast
    with ce'(1) have w2: "walk h a (fst e' # ks2) = Some b" by simp
    from walk_unique[OF c a w1 w2] have "fst e = fst e'" by simp
    with e'(1) Cons.prems(2) show False by auto
  qed
  with dy dz xs show ?case by simp
qed

lemma preorder_distinct:
  assumes s: "sorted_ok h" and c: "child_ok h"
  shows "a < length h \<Longrightarrow> preorder d h a = Some xs \<Longrightarrow> distinct xs"
proof (induction d arbitrary: a xs)
  case 0
  then show ?case by simp
next
  case (Suc d)
  show ?case
  proof (cases "type (h ! a) = DIRECTORY")
    case True
    with Suc.prems(2) obtain ys where ys: "preorder_children d h (children (h ! a)) = Some ys"
      and xs: "xs = a # ys"
      by auto
    have "a \<notin> set ys"
    proof
      assume "a \<in> set ys"
      from preorder_children_mem[OF ys this] obtain e zs where e: "e \<in> set (children (h ! a))"
        "preorder d h (snd e) = Some zs" "a \<in> set zs" by blast
      note ce = child_entry[OF s c Suc.prems(1) e(1)]
      from preorder_below[OF s c ce(3) e(2) e(3)] obtain ks where "walk h (snd e) ks = Some a"
        by blast
      from walk_range[OF c ce(3) this] ce(2) show False by simp
    qed
    moreover have "distinct ys"
    proof (rule preorder_children_distinct[OF s c Suc.prems(1) _ _ _ ys])
      fix e zs
      assume e: "e \<in> set (children (h ! a))" and zs: "preorder d h (snd e) = Some zs"
      from child_entry(3)[OF s c Suc.prems(1) e] zs show "distinct zs" by (rule Suc.IH)
    next
      show "set (children (h ! a)) \<subseteq> set (children (h ! a))" by simp
    next
      from s Suc.prems(1) show "distinct (map fst (children (h ! a)))"
        unfolding sorted_ok_def by (simp add: strict_sorted_iff)
    qed
    ultimately show ?thesis using xs by simp
  next
    case False
    with Suc.prems(2) show ?thesis by auto
  qed
qed

lemma node_reach:
  assumes p: "parent_ok h"
  shows "a < length h \<Longrightarrow> \<exists>ks. walk h 0 ks = Some a"
proof (induction a rule: less_induct)
  case (less a)
  show ?case
  proof (cases "a = 0")
    case True
    then have "walk h 0 [] = Some a" by simp
    then show ?thesis by blast
  next
    case False
    with p less.prems obtain q where q: "q < a"
      "map_of (children (h ! q)) (name (h ! a)) = Some a"
      unfolding parent_ok_def by blast
    from q(1) less.prems obtain ks where "walk h 0 ks = Some q"
      using less.IH[of q] by auto
    with q(2) have "walk h 0 (ks @ [name (h ! a)]) = Some a"
      unfolding walk_snoc by blast
    then show ?thesis by blast
  qed
qed

lemma getPath_is_path:
  assumes i: "fs_inv fs" and a: "a < length (heap fs)"
  shows "\<exists>p. getPath fs a = Some p" and "getPath fs a = Some p \<Longrightarrow> is_path fs a p"
proof -
  from inv_parts(2)[OF i] have len: "0 < length (heap fs)"
    unfolding root_ok_def by simp
  note r = inv_parts(1)[OF i] and c = inv_parts(3)[OF i]
  from node_reach[OF inv_parts(4)[OF i] a] obtain ks where ks: "walk (heap fs) 0 ks = Some a"
    by blast
  from getPath_walk[OF r c len ks] have g: "getPath fs a = Some (absolute_path ks)" .
  then show "\<exists>p. getPath fs a = Some p" by blast
  assume "getPath fs a = Some p"
  with g have "p = absolute_path ks" by simp
  moreover from names_along_walk[OF c len ks] have "names_along (heap fs) (root fs) ks = Some ks"
    using r by simp
  ultimately show "is_path fs a p"
    unfolding is_path_def using ks r by auto
qed

lemma find_inv:
  assumes i: "fs_inv fs" and d: "length (heap fs) \<le> d"
  shows "\<exists>nodes paths. preorder d (heap fs) (root fs) = Some nodes \<and>
     set nodes = {..<length (heap fs)} \<and> distinct nodes \<and>
     find_cmd d nm fs = Some paths \<and>
     list_all2 (\<lambda>a p. getPath fs a = Some p) (filter (\<lambda>a. name (heap fs ! a) = nm) nodes) paths"
proof -
  let ?h = "heap fs"
  from inv_parts(2)[OF i] have len: "0 < length ?h"
    unfolding root_ok_def by simp
  note r = inv_parts(1)[OF i] and c = inv_parts(3)[OF i] and s = inv_parts(5)[OF i]
  from d have "length ?h \<le> d + 0" by simp
  from preorder_total[OF s c len this] obtain nodes where n: "preorder d ?h 0 = Some nodes"
    by blast
  have sub: "b < length ?h" if "b \<in> set nodes" for b
    using preorder_below[OF s c len n that] by simp
  have "set nodes = {..<length ?h}"
    using sub preorder_all[OF inv_parts(4)[OF i] n] by auto
  moreover have "distinct nodes"
    using s c len n by (rule preorder_distinct)
  moreover have "\<forall>b \<in> set nodes. getPath fs b \<noteq> None"
    using getPath_is_path(1)[OF i sub] by auto
  from find_helper_preorder[OF n this, of nm "[]"] obtain ps where
    "find_helper d fs 0 nm [] = Some ps"
    "list_all2 (\<lambda>a p. getPath fs a = Some p) (filter (\<lambda>a. name (?h ! a) = nm) nodes) ps"
    by auto
  ultimately show ?thesis using n r by (auto simp: find_cmd_def)
qed


lemma find_root_name:
  assumes i: "fs_inv fs" and n: "preorder d (heap fs) (root fs) = Some nodes"
    and dn: "distinct nodes" and sn: "set nodes = {..<length (heap fs)}"
  shows "filter (\<lambda>a. name (heap fs ! a) = ''/'') nodes = [root fs]"
proof -
  from preorder_head[OF n] obtain ys where ys: "nodes = root fs # ys" by blast
  note r = inv_parts(1)[OF i]
  from inv_parts(2)[OF i] have rn: "name (heap fs ! root fs) = ''/''"
    unfolding root_ok_def using r by simp
  have "name (heap fs ! b) \<noteq> ''/''" if "b \<in> set ys" for b
  proof -
    have "b \<noteq> 0"
    proof
      assume "b = 0"
      with that ys dn r show False by simp
    qed
    then have "0 < b" by simp
    moreover from that ys sn have "b < length (heap fs)" by auto
    ultimately have "CHR ''/'' \<notin> set (name (heap fs ! b))"
      using inv_parts(4)[OF i] unfolding parent_ok_def by blast
    then show ?thesis by auto
  qed
  then have "filter (\<lambda>a. name (heap fs ! a) = ''/'') ys = []"
    by (simp add: filter_empty_conv)
  with ys rn show ?thesis by simp
qed

text \<open>
  Claim C2: in every reachable state, with a depth bound \<open>d\<close> of at least the number of
  allocated nodes, the traversal from the root returns a list \<open>nodes\<close> that holds every
  allocated node exactly once, \<^verbatim>\<open>find\<close> returns, and its result is, entry by entry, the
  absolute path of the nodes of that list whose name equals the argument, in the order of
  the list. \<^verbatim>\<open>find /\<close> returns the single path \<^verbatim>\<open>/\<close>; when no node has the name the result
  is the empty list; and the children of every node are stored, hence visited, in
  ascending byte-lexicographic order of their keys.
\<close>

theorem C2_find:
  "(length (heap (run cs)) \<le> d \<longrightarrow>
      (\<exists>nodes paths. preorder d (heap (run cs)) (root (run cs)) = Some nodes \<and>
         set nodes = {..<length (heap (run cs))} \<and> distinct nodes \<and>
         find_cmd d nm (run cs) = Some paths \<and>
         list_all2 (is_path (run cs))
           (filter (\<lambda>a. name (heap (run cs) ! a) = nm) nodes) paths) \<and>
      find_cmd d ''/'' (run cs) = Some [''/''] \<and>
      ((\<forall>a<length (heap (run cs)). name (heap (run cs) ! a) \<noteq> nm) \<longrightarrow>
         find_cmd d nm (run cs) = Some [])) \<and>
   (\<forall>a<length (heap (run cs)).
      sorted_wrt bytes_less (map fst (children (heap (run cs) ! a))))"
proof (intro conjI impI allI)
  let ?s = "run cs"
  have i: "fs_inv ?s" by (rule inv_run)
  {
    assume d: "length (heap ?s) \<le> d"
    from find_inv[OF i d, of nm] obtain nodes paths where
      n: "preorder d (heap ?s) (root ?s) = Some nodes" "set nodes = {..<length (heap ?s)}"
        "distinct nodes" "find_cmd d nm ?s = Some paths"
        "list_all2 (\<lambda>a p. getPath ?s a = Some p)
           (filter (\<lambda>a. name (heap ?s ! a) = nm) nodes) paths"
      by blast
    have "list_all2 (is_path ?s) (filter (\<lambda>a. name (heap ?s ! a) = nm) nodes) paths"
      using n(5)
    proof (rule list.rel_mono_strong)
      fix a p
      assume "a \<in> set (filter (\<lambda>a. name (heap ?s ! a) = nm) nodes)" "getPath ?s a = Some p"
      with n(2) show "is_path ?s a p"
        by (intro getPath_is_path(2)[OF i]) auto
    qed
    with n show "\<exists>nodes paths. preorder d (heap ?s) (root ?s) = Some nodes \<and>
         set nodes = {..<length (heap ?s)} \<and> distinct nodes \<and>
         find_cmd d nm ?s = Some paths \<and>
         list_all2 (is_path ?s) (filter (\<lambda>a. name (heap ?s ! a) = nm) nodes) paths"
      by blast
    {
      assume "\<forall>a<length (heap ?s). name (heap ?s ! a) \<noteq> nm"
      with n(2) have "filter (\<lambda>a. name (heap ?s ! a) = nm) nodes = []"
        by (auto simp: filter_empty_conv)
      with n(5) have "paths = []" by simp
      with n(4) show "find_cmd d nm ?s = Some []" by simp
    }
    from find_inv[OF i d, of "''/''"] obtain nodes' paths' where
      n': "preorder d (heap ?s) (root ?s) = Some nodes'" "set nodes' = {..<length (heap ?s)}"
        "distinct nodes'" "find_cmd d ''/'' ?s = Some paths'"
        "list_all2 (\<lambda>a p. getPath ?s a = Some p)
           (filter (\<lambda>a. name (heap ?s ! a) = ''/'') nodes') paths'"
      by blast
    from find_root_name[OF i n'(1) n'(3) n'(2)] n'(5)
    have "list_all2 (\<lambda>a p. getPath ?s a = Some p) [root ?s] paths'" by simp
    then have "paths' = [''/'']"
      by (auto simp: list_all2_Cons1 getPath_root)
    with n'(4) show "find_cmd d ''/'' ?s = Some [''/'']" by simp
  }
  fix a
  assume "a < length (heap ?s)"
  with inv_parts(5)[OF i] have "sorted_wrt (<) (map fst (children (heap ?s ! a)))"
    unfolding sorted_ok_def by blast
  moreover have "bytes_less = (<)"
    by (intro ext) (rule bytes_less_iff)
  ultimately show "sorted_wrt bytes_less (map fst (children (heap ?s ! a)))" by simp
qed


text \<open>
  The hypotheses of C2 on the tree with \<^verbatim>\<open>/home/user\<close> and \<^verbatim>\<open>/home/readme.txt\<close>, where the
  traversal visits \<^verbatim>\<open>readme.txt\<close> (node 3) before \<^verbatim>\<open>user\<close> (node 2).
\<close>

theorem C2_find_witness:
  "length (heap (run [Mkdir ''home'', Cd ''home'', Mkdir ''user'', Touch ''readme.txt''])) \<le> 4 \<and>
   map name (heap (run [Mkdir ''home'', Cd ''home'', Mkdir ''user'', Touch ''readme.txt''])) =
     [''/'', ''home'', ''user'', ''readme.txt''] \<and>
   find_cmd 4 ''missing'' (run [Mkdir ''home'', Cd ''home'', Mkdir ''user'', Touch ''readme.txt''])
     = Some [] \<and>
   find_cmd 4 ''/'' (run [Mkdir ''home'', Cd ''home'', Mkdir ''user'', Touch ''readme.txt''])
     = Some [''/''] \<and>
   find_cmd 4 ''user'' (run [Mkdir ''home'', Cd ''home'', Mkdir ''user'', Touch ''readme.txt''])
     = Some [''/home/user''] \<and>
   preorder 4 (heap (run [Mkdir ''home'', Cd ''home'', Mkdir ''user'', Touch ''readme.txt''])) 0
     = Some [0, 1, 3, 2] \<and>
   sorted_wrt bytes_less (map fst (children
     (heap (run [Mkdir ''home'', Cd ''home'', Mkdir ''user'', Touch ''readme.txt'']) ! 1)))"
proof -
  let ?s = "run [Mkdir ''home'', Cd ''home'', Mkdir ''user'', Touch ''readme.txt'']"
  have h: "heap ?s =
    [\<lparr>name = ''/'', type = DIRECTORY, parent = None, children = [(''home'', 1)]\<rparr>,
     \<lparr>name = ''home'', type = DIRECTORY, parent = Some 0,
        children = [(''readme.txt'', 3), (''user'', 2)]\<rparr>,
     \<lparr>name = ''user'', type = DIRECTORY, parent = Some 1, children = []\<rparr>,
     \<lparr>name = ''readme.txt'', type = FILE, parent = Some 1, children = []\<rparr>]"
    by (simp add: eval_defs)
  have r: "root ?s = 0"
    by (simp add: eval_defs)
  have a: "length (heap ?s) \<le> 4"
    by (simp add: h)
  have b: "\<forall>a<length (heap ?s). name (heap ?s ! a) \<noteq> ''missing''"
    by (simp add: h nth_Cons' less_Suc_eq eval_nat_numeral)
  have c: "(1::nat) < length (heap ?s)"
    by (simp add: h)
  have u: "find_cmd 4 ''user'' ?s = Some [''/home/user'']"
    by (simp add: find_cmd_def r h getPath.simps eval_nat_numeral)
  have p: "preorder 4 (heap ?s) 0 = Some [0, 1, 3, 2]"
    by (simp add: h eval_nat_numeral)
  note inst = C2_find[of "[Mkdir ''home'', Cd ''home'', Mkdir ''user'', Touch ''readme.txt'']"
      4 "''missing''"]
  from inst a b have 1: "find_cmd 4 ''missing'' ?s = Some []" by blast
  from inst a have 2: "find_cmd 4 ''/'' ?s = Some [''/'']" by blast
  from inst c have 3: "sorted_wrt bytes_less (map fst (children (heap ?s ! 1)))" by blast
  have n: "map name (heap ?s) = [''/'', ''home'', ''user'', ''readme.txt'']"
    by (simp add: h)
  from a n 1 2 u p 3 show ?thesis by blast
qed

end
